theory Spec2Isabelle
  imports Main "HOL-Library.AList"
begin

section \<open>Values and the message protocol (src/protocol.ts)\<close>

text \<open>
  Arguments, results and errors are \<open>unknown\<close> in the source: the library never looks
  inside them. \<open>val\<close> stands for such opaque payloads.
\<close>

datatype val = Undefined | Num int | Str string | Arr "val list" | Obj "(string \<times> val) list"

text \<open>
  What a promise of the library can be rejected with: the \<open>AbortError\<close> that
  \<open>controller.abort()\<close> installs as \<open>signal.reason\<close> and \<open>throwIfAborted()\<close> throws,
  the \<open>error\<close> field of an error envelope, or the \<open>ErrorEvent\<close> of the worker.
\<close>

datatype reason = AbortError | ErrorValue val | ErrorEvent val

record WorkerCall =
  call_id :: nat
  call_method :: string
  args :: "val list"

text \<open>
  \<open>e.data as ResponseMessage\<close> is a cast: the data may carry any \<open>type\<close>.
  \<open>Unrecognized t i\<close> is a message whose \<open>type\<close> is the string \<open>t\<close>, neither
  \<open>'success'\<close> nor \<open>'error'\<close>, and whose \<open>id\<close> is \<open>i\<close> (a message without an
  \<open>id\<close> behaves as one whose id is not in the table).
\<close>

datatype ResponseMessage =
    WorkerCallSuccess nat val
  | WorkerCallError nat val
  | Unrecognized string nat

fun message_id :: "ResponseMessage \<Rightarrow> nat" where
  "message_id (WorkerCallSuccess i result) = i"
| "message_id (WorkerCallError i error) = i"
| "message_id (Unrecognized t i) = i"

section \<open>The callee side: connectWorker (src/protocol.ts)\<close>

text \<open>
  \<open>e.data\<close> as received by the worker: a call envelope, or anything whose \<open>type\<close>
  is not \<open>'call'\<close>.
\<close>

datatype incoming = IsCall WorkerCall | NotCall

definition notInitialized :: val where
  "notInitialized = Str ''Cannot call worker method without initializing it first''"

text \<open>
  The \<open>onmessage\<close> handler installed by \<open>connectWorker(factory)\<close>. The variable
  \<open>handler\<close> is the state; \<open>factory\<close> is \<open>new factory(...args)\<close>, which returns the
  object or throws (\<open>Inl\<close>); \<open>dispatch h m a\<close> is \<open>await handler[m](...a)\<close>, which
  returns a result or throws and may change the object. The result is the new
  \<open>handler\<close> and the response posted, if any. The await is taken as completing
  at once; the branch taken while \<open>handler\<close> is unset has no await.
\<close>

fun connectWorker_onmessage ::
  "(val list \<Rightarrow> val + 'h) \<Rightarrow> ('h \<Rightarrow> string \<Rightarrow> val list \<Rightarrow> (val + val) \<times> 'h) \<Rightarrow>
   'h option \<Rightarrow> incoming \<Rightarrow> 'h option \<times> ResponseMessage option" where
  "connectWorker_onmessage factory dispatch handler NotCall = (handler, None)"
| "connectWorker_onmessage factory dispatch (Some h) (IsCall message) =
     (case dispatch h (call_method message) (args message) of
        (Inr result, h') \<Rightarrow> (Some h', Some (WorkerCallSuccess (call_id message) result))
      | (Inl err, h') \<Rightarrow> (Some h', Some (WorkerCallError (call_id message) err)))"
| "connectWorker_onmessage factory dispatch None (IsCall message) =
     (if call_method message \<noteq> ''constructor''
      then (None, Some (WorkerCallError (call_id message) notInitialized))
      else (case factory (args message) of
              Inr h \<Rightarrow> (Some h, Some (WorkerCallSuccess (call_id message) Undefined))
            | Inl err \<Rightarrow> (None, Some (WorkerCallError (call_id message) err))))"

text \<open>The worker handling a sequence of messages: the responses in order.\<close>

fun serve ::
  "(val list \<Rightarrow> val + 'h) \<Rightarrow> ('h \<Rightarrow> string \<Rightarrow> val list \<Rightarrow> (val + val) \<times> 'h) \<Rightarrow>
   'h option \<Rightarrow> incoming list \<Rightarrow> 'h option \<times> ResponseMessage option list" where
  "serve factory dispatch handler [] = (handler, [])"
| "serve factory dispatch handler (m # ms) =
     (case connectWorker_onmessage factory dispatch handler m of
        (handler', response) \<Rightarrow>
          (case serve factory dispatch handler' ms of
             (handler'', responses) \<Rightarrow> (handler'', response # responses)))"

fun isErrorFor :: "incoming \<Rightarrow> ResponseMessage option \<Rightarrow> bool" where
  "isErrorFor (IsCall message) (Some (WorkerCallError i err)) = (i = call_id message)"
| "isErrorFor m r = False"

section \<open>The channel: WorkerConnection (src/workers.ts)\<close>

text \<open>
  A pending entry \<open>{resolve, reject}\<close> is a pair of callbacks of one promise; the
  type \<open>'r\<close> names that promise. Calling \<open>resolve\<close> or \<open>reject\<close> is an effect
  returned to the caller, and so is \<open>console.warn\<close>.
\<close>

datatype outcome = Resolve val | Reject reason

datatype 'r effect = Settle 'r outcome | Warn string

text \<open>
  \<open>requests\<close> is the \<open>Map<number, WorkerRequest>\<close> in insertion order;
  \<open>posted\<close> is what \<open>worker.postMessage\<close> was given, in order; \<open>listening\<close> says
  that the two event listeners are attached, \<open>terminated\<close> that
  \<open>worker.terminate()\<close> was called.
\<close>

record 'r WorkerConnection =
  requests :: "(nat \<times> 'r) list"
  nextCallId :: nat
  posted :: "WorkerCall list"
  listening :: bool
  terminated :: bool

definition newWorkerConnection :: "'r WorkerConnection" where
  "newWorkerConnection =
     \<lparr>requests = [], nextCallId = 1, posted = [], listening = True, terminated = False\<rparr>"

text \<open>
  \<open>call(method, args, options)\<close>: \<open>request\<close> names the promise the source creates
  and returns. \<open>signal\<close> is \<open>options.signal\<close>; the source never reads it.
\<close>

definition call ::
  "'r WorkerConnection \<Rightarrow> 'r \<Rightarrow> string \<Rightarrow> val list \<Rightarrow> nat option \<Rightarrow> 'r WorkerConnection" where
  "call conn request m a signal =
     conn\<lparr>requests := AList.update (nextCallId conn) request (requests conn),
          nextCallId := nextCallId conn + 1,
          posted := posted conn @ [\<lparr>call_id = nextCallId conn, call_method = m, args = a\<rparr>]\<rparr>"

definition unexpectedType :: "string \<Rightarrow> string" where
  "unexpectedType t = ''Unexpected worker response type: '' @ t"

fun respond :: "'r \<Rightarrow> ResponseMessage \<Rightarrow> 'r effect" where
  "respond request (WorkerCallSuccess i result) = Settle request (Resolve result)"
| "respond request (WorkerCallError i error) = Settle request (Reject (ErrorValue error))"
| "respond request (Unrecognized t i) = Warn (unexpectedType t)"

definition onMessage ::
  "'r WorkerConnection \<Rightarrow> ResponseMessage \<Rightarrow> 'r WorkerConnection \<times> 'r effect list" where
  "onMessage conn message =
     (case map_of (requests conn) (message_id message) of
        None \<Rightarrow> (conn, [])
      | Some request \<Rightarrow>
          (conn\<lparr>requests := AList.delete (message_id message) (requests conn)\<rparr>,
           [respond request message]))"

definition onError :: "'r WorkerConnection \<Rightarrow> val \<Rightarrow> 'r WorkerConnection \<times> 'r effect list" where
  "onError conn e =
     (conn\<lparr>requests := []\<rparr>,
      map (\<lambda>request. Settle request (Reject (ErrorEvent e))) (map snd (requests conn)))"

definition dispose :: "'r WorkerConnection \<Rightarrow> 'r WorkerConnection" where
  "dispose conn = conn\<lparr>listening := False, terminated := True\<rparr>"

section \<open>The lazy connection: LazyWorkerProxy (src/workers.ts)\<close>

text \<open>
  Objects the proxy allocates are kept in stores indexed by allocation order, and
  referred to by index: the shared \<open>request\<close> promises of \<open>makeBlockedState\<close>, the
  \<open>AbortController\<close>s, the \<open>WorkerConnection\<close>s (one per call of the worker factory),
  the promises returned to the callers of proxy methods, and the forwarding closures.
\<close>

datatype 'a promise = Pending | Fulfilled 'a | Rejected reason

text \<open>
  The union \<open>connectionState\<close>. \<open>Blocked r k\<close>, \<open>Ready r k\<close> and \<open>Connecting r k\<close>
  hold the shared promise \<open>r\<close> (\<open>request\<close>; \<open>resolve\<close> and \<open>reject\<close> are its
  callbacks) and the controller \<open>k\<close>; \<open>Connected c k\<close> holds the connection \<open>c\<close>
  and the controller \<open>k\<close>.
\<close>

datatype connectionState =
    Disconnected
  | Blocked nat nat
  | Ready nat nat
  | Connecting nat nat
  | Connected nat nat

text \<open>
  Who awaits a promise made by \<open>WorkerConnection.call\<close>: \<open>MethodResult P\<close> is the
  invocation of a forwarding closure whose own promise \<open>P\<close> takes on that promise's
  outcome (\<open>return connection.call(...)\<close>); \<open>ConnectAttempt r k\<close> is the run of
  \<open>connect\<close> started from the state \<open>Ready r k\<close>, suspended at its
  \<open>await rawConnection.call('constructor', ...)\<close>.
\<close>

datatype waiter = MethodResult nat | ConnectAttempt nat nat

text \<open>
  An invocation of a forwarding closure, suspended at \<open>await this.tryConnect()\<close>:
  its own promise, the captured \<open>methodName\<close> and its \<open>args\<close>.
\<close>

type_synonym invocation = "nat \<times> string \<times> val list"

text \<open>
  \<open>awaiting\<close> holds the invocations waiting for a shared promise that is still
  pending, with that promise. \<open>microtasks\<close> holds the invocations whose awaited
  promise is settled and whose continuation has not run yet, with the outcome.
\<close>

record LazyWorkerProxy =
  constructorArgs :: "val list"
  connectionState :: connectionState
  methods :: "(string \<times> nat) list"
  proxy :: nat
  closures :: "string list"
  shared :: "(nat \<times> nat) promise list"
  controllers :: "bool list"
  connections :: "waiter WorkerConnection list"
  results :: "val promise list"
  awaiting :: "(nat \<times> invocation) list"
  microtasks :: "(invocation \<times> (nat \<times> nat) promise) list"
  warnings :: "string list"

text \<open>\<open>new LazyWorkerProxy(workerFactory, constructorArgs)\<close>, its \<open>Proxy\<close> being object \<open>px\<close>.\<close>

definition newLazyWorkerProxy :: "val list \<Rightarrow> nat \<Rightarrow> LazyWorkerProxy" where
  "newLazyWorkerProxy a px =
     \<lparr>constructorArgs = a, connectionState = Disconnected, methods = [], proxy = px,
      closures = [], shared = [], controllers = [], connections = [], results = [],
      awaiting = [], microtasks = [], warnings = []\<rparr>"

fun stateType :: "connectionState \<Rightarrow> string" where
  "stateType Disconnected = ''disconnected''"
| "stateType (Blocked r k) = ''blocked''"
| "stateType (Ready r k) = ''ready''"
| "stateType (Connecting r k) = ''connecting''"
| "stateType (Connected c k) = ''connected''"

text \<open>\<open>makeBlockedState\<close>: a new pending promise and a new controller.\<close>

definition makeBlockedState :: "LazyWorkerProxy \<Rightarrow> (nat \<times> nat) \<times> LazyWorkerProxy" where
  "makeBlockedState p =
     ((length (shared p), length (controllers p)),
      p\<lparr>shared := shared p @ [Pending], controllers := controllers p @ [False]\<rparr>)"

text \<open>
  \<open>getMethod\<close>: the closure found in \<open>methods\<close>, or a new one capturing
  \<open>methodName\<close>. The source never writes to \<open>methods\<close>.
\<close>

definition getMethod :: "string \<Rightarrow> LazyWorkerProxy \<Rightarrow> nat \<times> LazyWorkerProxy" where
  "getMethod methodName p =
     (case map_of (methods p) methodName of
        Some m \<Rightarrow> (m, p)
      | None \<Rightarrow> (length (closures p), p\<lparr>closures := closures p @ [methodName]\<rparr>))"

text \<open>
  Settling the shared promise \<open>r\<close> (a settled promise stays as it is): the
  invocations awaiting it get their continuations queued.
\<close>

definition settleShared :: "nat \<Rightarrow> (nat \<times> nat) promise \<Rightarrow> LazyWorkerProxy \<Rightarrow> LazyWorkerProxy" where
  "settleShared r v p =
     (if shared p ! r = Pending
      then p\<lparr>shared := (shared p)[r := v],
             microtasks := microtasks p @ map (\<lambda>w. (snd w, v)) (filter (\<lambda>w. fst w = r) (awaiting p)),
             awaiting := filter (\<lambda>w. fst w \<noteq> r) (awaiting p)\<rparr>
      else p)"

definition settleResult :: "nat \<Rightarrow> val promise \<Rightarrow> LazyWorkerProxy \<Rightarrow> LazyWorkerProxy" where
  "settleResult P v p =
     (if results p ! P = Pending then p\<lparr>results := (results p)[P := v]\<rparr> else p)"

text \<open>
  \<open>connect(state)\<close> up to its \<open>await\<close>, for \<open>state = Ready r k\<close>: if the signal
  is aborted it throws, and the rejection handler of \<open>tryConnect\<close> rejects the
  shared promise; otherwise the worker factory is called, a \<open>WorkerConnection\<close>
  is made of the worker and the \<open>'constructor'\<close> call is sent on it.
\<close>

definition connect :: "nat \<Rightarrow> nat \<Rightarrow> LazyWorkerProxy \<Rightarrow> LazyWorkerProxy" where
  "connect r k p =
     (if controllers p ! k then settleShared r (Rejected AbortError) p
      else p\<lparr>connections := connections p @
             [call newWorkerConnection (ConnectAttempt r k) ''constructor'' (constructorArgs p) (Some k)]\<rparr>)"

text \<open>
  \<open>connect\<close> after its \<open>await\<close> on connection \<open>c\<close>, with the handlers that
  \<open>tryConnect\<close> attached to it: the \<open>'constructor'\<close> call succeeded (\<open>Resolve\<close>) or
  failed (\<open>Reject\<close>).
\<close>

fun connectResume :: "nat \<Rightarrow> nat \<Rightarrow> nat \<Rightarrow> outcome \<Rightarrow> LazyWorkerProxy \<Rightarrow> LazyWorkerProxy" where
  "connectResume c r k (Resolve v) p =
     (if controllers p ! k
      then settleShared r (Rejected AbortError)
             (p\<lparr>connections := (connections p)[c := dispose (connections p ! c)]\<rparr>)
      else settleShared r (Fulfilled (c, k)) (p\<lparr>connectionState := Connected c k\<rparr>))"
| "connectResume c r k (Reject err) p = settleShared r (Rejected err) p"

text \<open>
  \<open>tryConnect\<close>: \<open>Inl r\<close> is the shared promise \<open>r\<close>, \<open>Inr (c, k)\<close> is
  \<open>Promise.resolve([connection, controller.signal])\<close>.
\<close>

definition tryConnect :: "LazyWorkerProxy \<Rightarrow> (nat + nat \<times> nat) \<times> LazyWorkerProxy" where
  "tryConnect p =
     (case connectionState p of
        Disconnected \<Rightarrow>
          (case makeBlockedState p of
             ((r, k), p') \<Rightarrow> (Inl r, p'\<lparr>connectionState := Blocked r k\<rparr>))
      | Blocked r k \<Rightarrow> (Inl r, p)
      | Ready r k \<Rightarrow> (Inl r, (connect r k p)\<lparr>connectionState := Connecting r k\<rparr>)
      | Connecting r k \<Rightarrow> (Inl r, p)
      | Connected c k \<Rightarrow> (Inr (c, k), p))"

text \<open>
  The forwarding closure made by \<open>getMethod\<close>, called with \<open>args\<close>: the part that
  runs at once. It makes the promise it returns and runs \<open>tryConnect\<close>; the rest
  of its body waits for the promise \<open>tryConnect\<close> returned.
\<close>

definition invoke :: "string \<Rightarrow> val list \<Rightarrow> LazyWorkerProxy \<Rightarrow> nat \<times> LazyWorkerProxy" where
  "invoke methodName a p =
     (case tryConnect (p\<lparr>results := results p @ [Pending]\<rparr>) of
        (Inl r, p') \<Rightarrow>
          (length (results p),
           (case shared p' ! r of
              Pending \<Rightarrow> p'\<lparr>awaiting := awaiting p' @ [(r, (length (results p), methodName, a))]\<rparr>
            | Fulfilled ck \<Rightarrow>
                p'\<lparr>microtasks := microtasks p' @ [((length (results p), methodName, a), Fulfilled ck)]\<rparr>
            | Rejected err \<Rightarrow>
                p'\<lparr>microtasks := microtasks p' @ [((length (results p), methodName, a), Rejected err)]\<rparr>))
      | (Inr ck, p') \<Rightarrow>
          (length (results p),
           p'\<lparr>microtasks := microtasks p' @ [((length (results p), methodName, a), Fulfilled ck)]\<rparr>))"

text \<open>
  The rest of the forwarding closure: with the connection, \<open>connection.call\<close> is
  made and its promise returned; with a rejection, the closure's promise is rejected.
\<close>

fun resume :: "invocation \<times> (nat \<times> nat) promise \<Rightarrow> LazyWorkerProxy \<Rightarrow> LazyWorkerProxy" where
  "resume ((P, methodName, a), Fulfilled (c, k)) p =
     p\<lparr>connections := (connections p)[c := call (connections p ! c) (MethodResult P) methodName a (Some k)]\<rparr>"
| "resume ((P, methodName, a), Rejected err) p = settleResult P (Rejected err) p"
| "resume ((P, methodName, a), Pending) p = p"

definition runMicrotasks :: "LazyWorkerProxy \<Rightarrow> LazyWorkerProxy" where
  "runMicrotasks p = foldl (\<lambda>q t. resume t q) (p\<lparr>microtasks := []\<rparr>) (microtasks p)"

text \<open>\<open>ready()\<close>.\<close>

definition ready :: "LazyWorkerProxy \<Rightarrow> LazyWorkerProxy" where
  "ready p =
     (case connectionState p of
        Disconnected \<Rightarrow>
          (case makeBlockedState p of ((r, k), p') \<Rightarrow> p'\<lparr>connectionState := Ready r k\<rparr>)
      | Blocked r k \<Rightarrow> snd (tryConnect (p\<lparr>connectionState := Ready r k\<rparr>))
      | _ \<Rightarrow> p)"

text \<open>\<open>disconnect()\<close>; \<open>controller.abort()\<close> sets the flag of the controller.\<close>

definition disconnect :: "LazyWorkerProxy \<Rightarrow> LazyWorkerProxy" where
  "disconnect p =
     (case connectionState p of
        Disconnected \<Rightarrow> p
      | Blocked r k \<Rightarrow> p\<lparr>controllers := (controllers p)[k := True], connectionState := Disconnected\<rparr>
      | Ready r k \<Rightarrow> p\<lparr>controllers := (controllers p)[k := True], connectionState := Disconnected\<rparr>
      | Connecting r k \<Rightarrow> p\<lparr>controllers := (controllers p)[k := True], connectionState := Disconnected\<rparr>
      | Connected c k \<Rightarrow>
          p\<lparr>controllers := (controllers p)[k := True],
            connections := (connections p)[c := dispose (connections p ! c)],
            connectionState := Disconnected\<rparr>)"

text \<open>What the callbacks of a pending entry of connection \<open>c\<close> do when called.\<close>

fun applyEffect :: "nat \<Rightarrow> waiter effect \<Rightarrow> LazyWorkerProxy \<Rightarrow> LazyWorkerProxy" where
  "applyEffect c (Warn w) p = p\<lparr>warnings := warnings p @ [w]\<rparr>"
| "applyEffect c (Settle (MethodResult P) (Resolve v)) p = settleResult P (Fulfilled v) p"
| "applyEffect c (Settle (MethodResult P) (Reject err)) p = settleResult P (Rejected err) p"
| "applyEffect c (Settle (ConnectAttempt r k) out) p = connectResume c r k out p"

text \<open>
  A \<open>message\<close> or \<open>error\<close> event of the worker of connection \<open>c\<close>. It reaches
  the connection only while its listeners are attached. An event is a task of its
  own: the microtasks queued before it have run, and those it queues run before
  anything else.
\<close>

definition workerMessage :: "nat \<Rightarrow> ResponseMessage \<Rightarrow> LazyWorkerProxy \<Rightarrow> LazyWorkerProxy" where
  "workerMessage c message p =
     (if c < length (connections p) \<and> listening (connections p ! c)
      then (case onMessage (connections (runMicrotasks p) ! c) message of
              (conn, effects) \<Rightarrow>
                runMicrotasks
                  (foldl (\<lambda>q e. applyEffect c e q)
                     ((runMicrotasks p)\<lparr>connections := (connections (runMicrotasks p))[c := conn]\<rparr>)
                     effects))
      else p)"

definition workerError :: "nat \<Rightarrow> val \<Rightarrow> LazyWorkerProxy \<Rightarrow> LazyWorkerProxy" where
  "workerError c e p =
     (if c < length (connections p) \<and> listening (connections p ! c)
      then (case onError (connections (runMicrotasks p) ! c) e of
              (conn, effects) \<Rightarrow>
                runMicrotasks
                  (foldl (\<lambda>q e. applyEffect c e q)
                     ((runMicrotasks p)\<lparr>connections := (connections (runMicrotasks p))[c := conn]\<rparr>)
                     effects))
      else p)"

section \<open>The reference-counted handle: LazyRefCountedWorker (src/workers.ts)\<close>

text \<open>
  \<open>instance\<close> is the field \<open>_instance\<close>, \<open>refCount\<close> the field \<open>_refCount\<close>
  (a JavaScript number, here an unbounded integer), \<open>workerArguments\<close> the field
  \<open>_workerArguments\<close>. \<open>created\<close> counts the \<open>LazyWorkerProxy\<close> objects made so far
  and numbers their \<open>Proxy\<close> objects.
\<close>

record LazyRefCountedWorker =
  workerArguments :: "val list"
  inst :: "LazyWorkerProxy option"
  refCount :: int
  created :: nat

definition refCountedWorker :: "val list \<Rightarrow> LazyRefCountedWorker" where
  "refCountedWorker a = \<lparr>workerArguments = a, inst = None, refCount = 0, created = 0\<rparr>"

definition ensureInstance :: "LazyRefCountedWorker \<Rightarrow> LazyWorkerProxy \<times> LazyRefCountedWorker" where
  "ensureInstance w =
     (case inst w of
        Some i \<Rightarrow> (i, w)
      | None \<Rightarrow>
          (newLazyWorkerProxy (workerArguments w) (created w),
           w\<lparr>inst := Some (newLazyWorkerProxy (workerArguments w) (created w)),
             created := created w + 1\<rparr>))"

definition getState :: "LazyRefCountedWorker \<Rightarrow> string" where
  "getState w =
     (case inst w of Some i \<Rightarrow> stateType (connectionState i) | None \<Rightarrow> ''disconnected'')"

definition getProxy :: "LazyRefCountedWorker \<Rightarrow> nat \<times> LazyRefCountedWorker" where
  "getProxy w = (case ensureInstance w of (i, w') \<Rightarrow> (proxy i, w'))"

definition acquire :: "LazyRefCountedWorker \<Rightarrow> nat \<times> LazyRefCountedWorker" where
  "acquire w =
     (case ensureInstance w of
        (i, w') \<Rightarrow>
          (proxy i,
           w'\<lparr>refCount := refCount w' + 1,
              inst := Some (if refCount w' + 1 > 0 then ready i else i)\<rparr>))"

definition release :: "LazyRefCountedWorker \<Rightarrow> LazyRefCountedWorker" where
  "release w =
     (case inst w of
        None \<Rightarrow> w
      | Some i \<Rightarrow>
          w\<lparr>refCount := refCount w - 1,
            inst := Some (if refCount w - 1 \<le> 0 then disconnect i else i)\<rparr>)"

section \<open>Runs\<close>

text \<open>
  What can happen to a handle: the consumer calls \<open>getProxy()\<close>, \<open>acquire()\<close> or
  \<open>release()\<close>, or calls the method \<open>m\<close> of the proxy with arguments (\<open>Call m a\<close>:
  the property access, then the call of the closure it returned); the consumer's
  code returns to the event loop (\<open>Tick\<close>: the queued microtasks run); the worker
  of connection \<open>c\<close> posts a message or raises an error event. Consumer calls
  that follow each other without a \<open>Tick\<close> are made in one synchronous stretch.
  A method can be called only on a proxy, so \<open>Call\<close> without an instance does nothing.
\<close>

datatype event =
    GetProxy
  | Acquire
  | Release
  | Call string "val list"
  | Tick
  | Message nat ResponseMessage
  | Fault nat val

definition callMethod :: "string \<Rightarrow> val list \<Rightarrow> LazyWorkerProxy \<Rightarrow> nat \<times> LazyWorkerProxy" where
  "callMethod m a p =
     (case getMethod m p of (f, p') \<Rightarrow> invoke (closures p' ! f) a p')"

definition onInstance :: "(LazyWorkerProxy \<Rightarrow> LazyWorkerProxy) \<Rightarrow> LazyRefCountedWorker \<Rightarrow> LazyRefCountedWorker" where
  "onInstance f w = (case inst w of None \<Rightarrow> w | Some i \<Rightarrow> w\<lparr>inst := Some (f i)\<rparr>)"

fun step :: "LazyRefCountedWorker \<Rightarrow> event \<Rightarrow> LazyRefCountedWorker" where
  "step w GetProxy = snd (getProxy w)"
| "step w Acquire = snd (acquire w)"
| "step w Release = release w"
| "step w (Call m a) = onInstance (\<lambda>i. snd (callMethod m a i)) w"
| "step w Tick = onInstance runMicrotasks w"
| "step w (Message c message) = onInstance (workerMessage c message) w"
| "step w (Fault c e) = onInstance (workerError c e) w"

definition run :: "LazyRefCountedWorker \<Rightarrow> event list \<Rightarrow> LazyRefCountedWorker" where
  "run w es = foldl step w es"

text \<open>The promise returned by the \<open>n\<close>-th method call made on the proxy.\<close>

definition resultOf :: "LazyRefCountedWorker \<Rightarrow> nat \<Rightarrow> val promise" where
  "resultOf w n = (case inst w of None \<Rightarrow> Pending | Some i \<Rightarrow> results i ! n)"

section \<open>Invariants of the reachable states\<close>

text \<open>
  The predicates below describe the states the operations can reach; they are used
  in proofs only. \<open>stOk\<close>: the objects named by \<open>connectionState\<close> exist, its
  controller is not aborted, a blocked or ready state has a pending shared promise and
  a connected state has a live connection whose \<open>'constructor'\<close> call is answered.
  \<open>wOk\<close>: a pending entry of connection \<open>c\<close> either stands for a method call, or is
  the \<open>'constructor'\<close> call with id 1, and then its controller is aborted or the state
  is \<open>Connecting\<close> with that controller and \<open>c\<close> is the newest connection.
  \<open>shOk\<close>: promise and controller number \<open>k\<close> were made together, and a shared
  promise resolved with a connection has an aborted controller or is the current
  connection. \<open>awOk\<close>, \<open>tOk\<close>: suspended invocations refer to existing objects.
\<close>

fun isAttempt :: "waiter \<Rightarrow> bool" where
  "isAttempt (ConnectAttempt r k) = True"
| "isAttempt (MethodResult P) = False"

definition noAttempt :: "waiter WorkerConnection \<Rightarrow> bool" where
  "noAttempt conn = (\<forall>e \<in> set (requests conn). \<not> isAttempt (snd e))"

fun stOk :: "connectionState \<Rightarrow> (nat \<times> nat) promise list \<Rightarrow> bool list \<Rightarrow> waiter WorkerConnection list \<Rightarrow> bool" where
  "stOk Disconnected sh ct cn = True"
| "stOk (Blocked r k) sh ct cn = (r = k \<and> k < length ct \<and> \<not> ct ! k \<and> sh ! k = Pending)"
| "stOk (Ready r k) sh ct cn = (r = k \<and> k < length ct \<and> \<not> ct ! k \<and> sh ! k = Pending)"
| "stOk (Connecting r k) sh ct cn = (r = k \<and> k < length ct \<and> \<not> ct ! k)"
| "stOk (Connected c k) sh ct cn =
     (k < length ct \<and> \<not> ct ! k \<and> c < length cn \<and> listening (cn ! c) \<and> noAttempt (cn ! c) \<and>
      sh ! k = Fulfilled (c, k))"

fun wOk :: "connectionState \<Rightarrow> (nat \<times> nat) promise list \<Rightarrow> bool list \<Rightarrow> nat \<Rightarrow> nat \<Rightarrow> nat \<Rightarrow> nat \<times> waiter \<Rightarrow> bool" where
  "wOk st sh ct n m c (i, MethodResult P) = (P < m)"
| "wOk st sh ct n m c (i, ConnectAttempt r k) =
     (i = 1 \<and> r = k \<and> k < length ct \<and>
      (\<not> ct ! k \<longrightarrow> st = Connecting r k \<and> Suc c = n \<and> sh ! k = Pending))"

definition cnOk :: "connectionState \<Rightarrow> (nat \<times> nat) promise list \<Rightarrow> bool list \<Rightarrow> nat \<Rightarrow> waiter WorkerConnection list \<Rightarrow> bool" where
  "cnOk st sh ct m cn = (\<forall>c < length cn. \<forall>e \<in> set (requests (cn ! c)). wOk st sh ct (length cn) m c e)"

definition shOk :: "connectionState \<Rightarrow> (nat \<times> nat) promise list \<Rightarrow> bool list \<Rightarrow> nat \<Rightarrow> bool" where
  "shOk st sh ct n =
     (length sh = length ct \<and>
      (\<forall>r < length sh. \<forall>c k. sh ! r = Fulfilled (c, k) \<longrightarrow>
         r = k \<and> c < n \<and> (\<not> ct ! k \<longrightarrow> st = Connected c k)))"

definition awOk :: "nat \<Rightarrow> nat \<Rightarrow> (nat \<times> invocation) list \<Rightarrow> bool" where
  "awOk ns m aw = (\<forall>w \<in> set aw. fst w < ns \<and> fst (snd w) < m)"

fun tOk :: "nat \<Rightarrow> nat \<Rightarrow> invocation \<times> (nat \<times> nat) promise \<Rightarrow> bool" where
  "tOk n m (i, Fulfilled (c, k)) = (fst i < m \<and> c < n)"
| "tOk n m (i, Rejected e) = (fst i < m)"
| "tOk n m (i, Pending) = (fst i < m)"

definition proxyOk :: "LazyWorkerProxy \<Rightarrow> bool" where
  "proxyOk p =
     (stOk (connectionState p) (shared p) (controllers p) (connections p) \<and>
      cnOk (connectionState p) (shared p) (controllers p) (length (results p)) (connections p) \<and>
      shOk (connectionState p) (shared p) (controllers p) (length (connections p)) \<and>
      awOk (length (shared p)) (length (results p)) (awaiting p) \<and>
      (\<forall>t \<in> set (microtasks p). tOk (length (connections p)) (length (results p)) t) \<and>
      methods p = [])"

fun effOk :: "LazyWorkerProxy \<Rightarrow> nat \<Rightarrow> waiter effect \<Rightarrow> bool" where
  "effOk p c (Warn w) = True"
| "effOk p c (Settle (MethodResult P) out) = (P < length (results p))"
| "effOk p c (Settle (ConnectAttempt r k) out) =
     (r = k \<and> k < length (controllers p) \<and> c < length (connections p) \<and>
      listening (connections p ! c) \<and> noAttempt (connections p ! c) \<and>
      (\<forall>k'. connectionState p \<noteq> Connected c k') \<and>
      (\<not> controllers p ! k \<longrightarrow>
         connectionState p = Connecting k k \<and> Suc c = length (connections p) \<and>
         (\<forall>v. out = Resolve v \<longrightarrow> shared p ! k = Pending)))"

fun isReject :: "'r effect \<Rightarrow> bool" where
  "isReject (Settle w (Reject x)) = True"
| "isReject e = False"

fun alive :: "connectionState \<Rightarrow> bool" where
  "alive (Ready r k) = True"
| "alive (Connecting r k) = True"
| "alive (Connected c k) = True"
| "alive st = False"

definition ident :: "LazyWorkerProxy \<Rightarrow> nat \<times> val list" where
  "ident p = (proxy p, constructorArgs p)"

definition handleOk :: "val list \<Rightarrow> LazyRefCountedWorker \<Rightarrow> bool" where
  "handleOk a w =
     (workerArguments w = a \<and>
      (case inst w of
         None \<Rightarrow> refCount w = 0 \<and> created w = 0
       | Some i \<Rightarrow> proxyOk i \<and> ident i = (0, a) \<and> created w = 1 \<and>
           (0 < refCount w \<longleftrightarrow> alive (connectionState i))))"

definition constructed :: "LazyRefCountedWorker \<Rightarrow> bool" where
  "constructed w =
     (case inst w of
        None \<Rightarrow> False
      | Some i \<Rightarrow>
          list_ex (\<lambda>r. case shared i ! r of Fulfilled (c, k) \<Rightarrow> \<not> controllers i ! k | _ \<Rightarrow> False)
            [0..<length (shared i)])"

definition channels :: "LazyRefCountedWorker \<Rightarrow> waiter WorkerConnection list" where
  "channels w = (case inst w of None \<Rightarrow> [] | Some i \<Rightarrow> connections i)"

definition constructorCall :: "val list \<Rightarrow> WorkerCall" where
  "constructorCall a = \<lparr>call_id = 1, call_method = ''constructor'', args = a\<rparr>"

definition postedOk :: "LazyWorkerProxy \<Rightarrow> bool" where
  "postedOk p =
     list_all (\<lambda>conn. posted conn \<noteq> [] \<and> hd (posted conn) = constructorCall (constructorArgs p))
       (connections p)"

text \<open>
  \<open>calls w\<close>: the number of method calls made on the proxy so far, which is also the
  number of the promise the next call returns. \<open>current w\<close>: the channel the proxy is
  connected through, when its state is \<open>'connected'\<close>. \<open>fresh p n k P m a\<close> (used in
  proofs only): the proxy is connecting through the new channel \<open>n\<close>, on which only the
  \<open>'constructor'\<close> call is pending, and the call \<open>P\<close> of method \<open>m\<close> is the last of
  the invocations waiting for the connection.
\<close>

definition calls :: "LazyRefCountedWorker \<Rightarrow> nat" where
  "calls w = (case inst w of None \<Rightarrow> 0 | Some i \<Rightarrow> length (results i))"

definition current :: "LazyRefCountedWorker \<Rightarrow> nat option" where
  "current w =
     (case inst w of
        None \<Rightarrow> None
      | Some i \<Rightarrow> (case connectionState i of Connected c k \<Rightarrow> Some c | _ \<Rightarrow> None))"

definition fresh :: "LazyWorkerProxy \<Rightarrow> nat \<Rightarrow> nat \<Rightarrow> nat \<Rightarrow> string \<Rightarrow> val list \<Rightarrow> bool" where
  "fresh p n k P m a =
     (connectionState p = Connecting k k \<and> Suc n = length (connections p) \<and>
      requests (connections p ! n) = [(1, ConnectAttempt k k)] \<and> listening (connections p ! n) \<and>
      k < length (controllers p) \<and> \<not> controllers p ! k \<and>
      k < length (shared p) \<and> shared p ! k = Pending \<and>
      awaiting p \<noteq> [] \<and> last (awaiting p) = (k, (P, m, a)) \<and>
      awOk (length (shared p)) P (butlast (awaiting p)) \<and>
      list_all (tOk n P) (microtasks p) \<and>
      P < length (results p) \<and> results p ! P = Pending)"



definition has :: "WorkerCall \<Rightarrow> 'r option \<Rightarrow> 'r WorkerConnection \<Rightarrow> bool" where
  "has env w conn =
     (env \<in> set (posted conn) \<and> call_id env < nextCallId conn \<and>
      map_of (requests conn) (call_id env) = w \<and>
      (\<forall>e \<in> set (requests conn). fst e < nextCallId conn))"

definition entry :: "nat \<Rightarrow> WorkerCall \<Rightarrow> waiter option \<Rightarrow> LazyWorkerProxy \<Rightarrow> bool" where
  "entry n env w p = (n < length (connections p) \<and> has env w (connections p ! n))"




definition onHandle :: "(LazyWorkerProxy \<Rightarrow> bool) \<Rightarrow> LazyRefCountedWorker \<Rightarrow> bool" where
  "onHandle S w = (case inst w of None \<Rightarrow> False | Some i \<Rightarrow> S i)"

text \<open>
  The predicates below describe where the continuation of one method call, with promise
  \<open>P\<close>, can still come from; they are used in proofs only. \<open>lead n P p\<close>: no invocation
  for \<open>P\<close> is suspended on a shared promise, the queued continuations for \<open>P\<close> will send
  on channel \<open>n\<close>, and the pending entries that stand for \<open>P\<close> are on channel \<open>n\<close>.
  \<open>dead n p\<close>: the listeners of channel \<open>n\<close> are removed. \<open>stuck n P p\<close>: the promise
  is pending and only the channel \<open>n\<close>, without listeners, could settle it.
  \<open>sending n k P p\<close>: the proxy is connected through channel \<open>n\<close>, where \<open>P\<close> leads.
\<close>

fun sendsOn :: "nat \<Rightarrow> (nat \<times> nat) promise \<Rightarrow> bool" where
  "sendsOn n (Fulfilled (c, k)) = (c = n)"
| "sendsOn n v = False"

definition lead :: "nat \<Rightarrow> nat \<Rightarrow> LazyWorkerProxy \<Rightarrow> bool" where
  "lead n P p =
     (P < length (results p) \<and>
      (\<forall>w \<in> set (awaiting p). fst (snd w) \<noteq> P) \<and>
      (\<forall>t \<in> set (microtasks p). fst (fst t) = P \<longrightarrow> sendsOn n (snd t)) \<and>
      (\<forall>c < length (connections p). \<forall>e \<in> set (requests (connections p ! c)).
         snd e = MethodResult P \<longrightarrow> c = n))"

definition stuck :: "nat \<Rightarrow> nat \<Rightarrow> LazyWorkerProxy \<Rightarrow> bool" where
  "stuck n P p =
     (lead n P p \<and> n < length (connections p) \<and> \<not> listening (connections p ! n) \<and>
      results p ! P = Pending)"

definition dead :: "nat \<Rightarrow> LazyWorkerProxy \<Rightarrow> bool" where
  "dead n p = (n < length (connections p) \<and> \<not> listening (connections p ! n))"

definition sending :: "nat \<Rightarrow> nat \<Rightarrow> nat \<Rightarrow> LazyWorkerProxy \<Rightarrow> bool" where
  "sending n k P p = (lead n P p \<and> connectionState p = Connected n k)"

section \<open>Preservation of the invariants\<close>

lemma inv_new: "proxyOk (newLazyWorkerProxy a px)"
  by (simp add: proxyOk_def cnOk_def shOk_def awOk_def newLazyWorkerProxy_def)

lemma inv_getMethod: "proxyOk p \<Longrightarrow> proxyOk (snd (getMethod m p))"
  by (simp add: proxyOk_def getMethod_def)

lemma invI:
  "stOk (connectionState p) (shared p) (controllers p) (connections p) \<Longrightarrow>
   cnOk (connectionState p) (shared p) (controllers p) (length (results p)) (connections p) \<Longrightarrow>
   shOk (connectionState p) (shared p) (controllers p) (length (connections p)) \<Longrightarrow>
   awOk (length (shared p)) (length (results p)) (awaiting p) \<Longrightarrow>
   (\<forall>t \<in> set (microtasks p). tOk (length (connections p)) (length (results p)) t) \<Longrightarrow>
   methods p = [] \<Longrightarrow> proxyOk p"
  by (simp add: proxyOk_def)

lemma inv_st: "proxyOk p \<Longrightarrow> stOk (connectionState p) (shared p) (controllers p) (connections p)"
  and inv_cn: "proxyOk p \<Longrightarrow> cnOk (connectionState p) (shared p) (controllers p) (length (results p)) (connections p)"
  and inv_sh: "proxyOk p \<Longrightarrow> shOk (connectionState p) (shared p) (controllers p) (length (connections p))"
  and inv_aw: "proxyOk p \<Longrightarrow> awOk (length (shared p)) (length (results p)) (awaiting p)"
  and inv_mt: "proxyOk p \<Longrightarrow> \<forall>t \<in> set (microtasks p). tOk (length (connections p)) (length (results p)) t"
  and inv_me: "proxyOk p \<Longrightarrow> methods p = []"
  by (simp_all add: proxyOk_def)

lemma inv_len: "proxyOk p \<Longrightarrow> length (shared p) = length (controllers p)"
  by (simp add: proxyOk_def shOk_def)

subsection \<open>Monotonicity\<close>

lemma wOk_results: "wOk st sh ct n m c e \<Longrightarrow> m \<le> m' \<Longrightarrow> wOk st sh ct n m' c e"
  by (cases e; cases "snd e") auto

lemma tOk_grow: "tOk n m t \<Longrightarrow> n \<le> n' \<Longrightarrow> m \<le> m' \<Longrightarrow> tOk n' m' t"
  by (cases t; cases "snd t") auto

lemma wOk_abort:
  "wOk st sh ct n m c e \<Longrightarrow> k < length ct \<Longrightarrow> \<forall>r. st = Connecting r r \<longrightarrow> r = k
   \<Longrightarrow> wOk st' sh (ct[k := True]) n m c e"
  by (cases e; cases "snd e") (auto simp: nth_list_update)

lemma wOk_idle:
  "wOk st sh ct n m c e \<Longrightarrow> \<forall>r k. st \<noteq> Connecting r k
   \<Longrightarrow> wOk st' (sh @ sh') (ct @ ct') n' m c e"
  by (cases e; cases "snd e") (auto simp: nth_append)

lemma wOk_idle0:
  "wOk st sh ct n m c e \<Longrightarrow> \<forall>r k. st \<noteq> Connecting r k \<Longrightarrow> wOk st' sh ct n' m c e"
  using wOk_idle [of st sh ct n m c e st' "[]" "[]" n'] by simp

lemma requests_dispose_nth:
  "requests (cn[c := dispose (cn ! c)] ! c') = requests (cn ! c')"
  by (cases "c = c'"; cases "c < length cn") (simp_all add: dispose_def list_update_beyond)

lemma noAttempt_dispose: "noAttempt (dispose conn) = noAttempt conn"
  by (simp add: noAttempt_def dispose_def)

lemma cnOk_dispose: "cnOk st sh ct m (cn[c := dispose (cn ! c)]) = cnOk st sh ct m cn"
  by (simp add: cnOk_def requests_dispose_nth)

lemma cnOk_abort:
  "cnOk st sh ct m cn \<Longrightarrow> k < length ct \<Longrightarrow> \<forall>r. st = Connecting r r \<longrightarrow> r = k
   \<Longrightarrow> cnOk st' sh (ct[k := True]) m cn"
  unfolding cnOk_def by (blast intro: wOk_abort)

lemma shOk_abort:
  assumes s: "shOk st sh ct n" and k: "k < length ct"
    and a: "\<forall>c k'. st = Connected c k' \<longrightarrow> k' = k"
  shows "shOk st' sh (ct[k := True]) n"
  unfolding shOk_def
proof (intro conjI allI impI)
  show "length sh = length (ct[k := True])" using s by (simp add: shOk_def)
next
  fix r c k' assume r: "r < length sh" and f: "sh ! r = Fulfilled (c, k')"
  from s r f have o: "r = k'" "c < n" "\<not> ct ! k' \<longrightarrow> st = Connected c k'"
    unfolding shOk_def by blast+
  show "r = k'" by (rule o)
  show "c < n" by (rule o)
  assume n: "\<not> ct[k := True] ! k'"
  have "k' \<noteq> k" using n k by auto
  then have "\<not> ct ! k'" using n by simp
  then have "st = Connected c k'" using o by simp
  then have "k' = k" using a by simp
  then show "st' = Connected c k'" using \<open>k' \<noteq> k\<close> by simp
qed

lemma inv_abort:
  assumes i: "proxyOk p" and k: "k < length (controllers p)"
    and a: "\<forall>r. connectionState p = Connecting r r \<longrightarrow> r = k"
    and b: "\<forall>c k'. connectionState p = Connected c k' \<longrightarrow> k' = k"
  shows "proxyOk (p\<lparr>controllers := (controllers p)[k := True], connectionState := Disconnected\<rparr>)"
proof (rule invI)
  let ?q = "p\<lparr>controllers := (controllers p)[k := True], connectionState := Disconnected\<rparr>"
  show "stOk (connectionState ?q) (shared ?q) (controllers ?q) (connections ?q)" by simp
  show "cnOk (connectionState ?q) (shared ?q) (controllers ?q) (length (results ?q)) (connections ?q)"
    using cnOk_abort [OF inv_cn [OF i] k a] by simp
  show "shOk (connectionState ?q) (shared ?q) (controllers ?q) (length (connections ?q))"
    using shOk_abort [OF inv_sh [OF i] k b] by simp
  show "awOk (length (shared ?q)) (length (results ?q)) (awaiting ?q)"
    using inv_aw [OF i] by simp
  show "\<forall>t \<in> set (microtasks ?q). tOk (length (connections ?q)) (length (results ?q)) t"
    using inv_mt [OF i] by simp
  show "methods ?q = []" using inv_me [OF i] by simp
qed

lemma inv_dispose_idle:
  assumes i: "proxyOk p" and d: "connectionState p = Disconnected"
  shows "proxyOk (p\<lparr>connections := (connections p)[c := dispose (connections p ! c)]\<rparr>)"
proof (rule invI)
  let ?q = "p\<lparr>connections := (connections p)[c := dispose (connections p ! c)]\<rparr>"
  show "stOk (connectionState ?q) (shared ?q) (controllers ?q) (connections ?q)" using d by simp
  show "cnOk (connectionState ?q) (shared ?q) (controllers ?q) (length (results ?q)) (connections ?q)"
    using inv_cn [OF i] by (simp add: cnOk_dispose)
  show "shOk (connectionState ?q) (shared ?q) (controllers ?q) (length (connections ?q))"
    using inv_sh [OF i] by simp
  show "awOk (length (shared ?q)) (length (results ?q)) (awaiting ?q)"
    using inv_aw [OF i] by simp
  show "\<forall>t \<in> set (microtasks ?q). tOk (length (connections ?q)) (length (results ?q)) t"
    using inv_mt [OF i] by simp
  show "methods ?q = []" using inv_me [OF i] by simp
qed

lemma inv_disconnect: "proxyOk p \<Longrightarrow> proxyOk (disconnect p)"
proof (cases "connectionState p")
  case Disconnected
  then show "proxyOk p \<Longrightarrow> proxyOk (disconnect p)" by (simp add: disconnect_def)
next
  case (Blocked r k)
  assume i: "proxyOk p"
  have k: "k < length (controllers p)" using inv_st [OF i] Blocked by simp
  show "proxyOk (disconnect p)"
    using inv_abort [OF i k] Blocked by (simp add: disconnect_def)
next
  case (Ready r k)
  assume i: "proxyOk p"
  have k: "k < length (controllers p)" using inv_st [OF i] Ready by simp
  show "proxyOk (disconnect p)"
    using inv_abort [OF i k] Ready by (simp add: disconnect_def)
next
  case (Connecting r k)
  assume i: "proxyOk p"
  have k: "k < length (controllers p)" and rk: "r = k" using inv_st [OF i] Connecting by simp_all
  have c: "connectionState p = Connecting k k" using Connecting rk by simp
  have "proxyOk (p\<lparr>controllers := (controllers p)[k := True], connectionState := Disconnected\<rparr>)"
    by (rule inv_abort [OF i k]) (simp_all add: c)
  then show "proxyOk (disconnect p)"
    by (simp add: disconnect_def c)
next
  case (Connected c k)
  assume i: "proxyOk p"
  have k: "k < length (controllers p)" using inv_st [OF i] Connected by simp
  have "proxyOk (p\<lparr>controllers := (controllers p)[k := True], connectionState := Disconnected\<rparr>)"
    by (rule inv_abort [OF i k]) (simp_all add: Connected)
  then have "proxyOk (p\<lparr>controllers := (controllers p)[k := True], connectionState := Disconnected,
      connections := (connections p)[c := dispose (connections p ! c)]\<rparr>)"
    using inv_dispose_idle [of "p\<lparr>controllers := (controllers p)[k := True], connectionState := Disconnected\<rparr>" c]
    by simp
  moreover have "disconnect p = p\<lparr>controllers := (controllers p)[k := True], connectionState := Disconnected,
      connections := (connections p)[c := dispose (connections p ! c)]\<rparr>"
    by (simp add: disconnect_def Connected)
  ultimately show "proxyOk (disconnect p)" by simp
qed

subsection \<open>Allocation and start of a connection\<close>

lemma cnOk_idle:
  "cnOk st sh ct m cn \<Longrightarrow> \<forall>r k. st \<noteq> Connecting r k
   \<Longrightarrow> cnOk st' (sh @ sh') (ct @ ct') m cn"
  unfolding cnOk_def by (blast intro: wOk_idle)

lemma cnOk_idle0:
  "cnOk st sh ct m cn \<Longrightarrow> \<forall>r k. st \<noteq> Connecting r k \<Longrightarrow> cnOk st' sh ct m cn"
  using cnOk_idle [of st sh ct m cn st' "[]" "[]"] by simp

lemma shOk_idle:
  assumes s: "shOk st sh ct n" and a: "\<forall>c k. st \<noteq> Connected c k" and n: "n \<le> n'"
  shows "shOk st' (sh @ [Pending]) (ct @ [False]) n'"
  unfolding shOk_def
proof (intro conjI allI impI)
  show "length (sh @ [Pending]) = length (ct @ [False])" using s by (simp add: shOk_def)
next
  fix r c k assume r: "r < length (sh @ [Pending])" and f: "(sh @ [Pending]) ! r = Fulfilled (c, k)"
  have r': "r < length sh" using r f by (cases "r = length sh") simp_all
  then have f': "sh ! r = Fulfilled (c, k)" using f by (simp add: nth_append)
  from s r' f' have o: "r = k" "c < n" "\<not> ct ! k \<longrightarrow> st = Connected c k"
    unfolding shOk_def by blast+
  show "r = k" by (rule o)
  show "c < n'" using o n by simp
  have l: "length sh = length ct" using s by (simp add: shOk_def)
  assume "\<not> (ct @ [False]) ! k"
  then have "\<not> ct ! k" using r' o(1) l by (simp add: nth_append)
  then show "st' = Connected c k" using o a by simp
qed

lemma shOk_idle0:
  assumes s: "shOk st sh ct n" and a: "\<forall>c k. st \<noteq> Connected c k" and n: "n \<le> n'"
  shows "shOk st' sh ct n'"
  unfolding shOk_def
proof (intro conjI allI impI)
  show "length sh = length ct" using s by (simp add: shOk_def)
next
  fix r c k assume r: "r < length sh" and f: "sh ! r = Fulfilled (c, k)"
  from s r f have o: "r = k" "c < n" "\<not> ct ! k \<longrightarrow> st = Connected c k"
    unfolding shOk_def by blast+
  show "r = k" by (rule o)
  show "c < n'" using o n by simp
  assume "\<not> ct ! k"
  then show "st' = Connected c k" using o a by simp
qed

lemma awOk_grow: "awOk ns m aw \<Longrightarrow> ns \<le> ns' \<Longrightarrow> m \<le> m' \<Longrightarrow> awOk ns' m' aw"
  unfolding awOk_def by fastforce

lemma mtOk_grow:
  "\<forall>t \<in> set ts. tOk n m t \<Longrightarrow> n \<le> n' \<Longrightarrow> m \<le> m' \<Longrightarrow> \<forall>t \<in> set ts. tOk n' m' t"
  by (blast intro: tOk_grow)

lemma inv_allocate:
  assumes i: "proxyOk p" and d: "connectionState p = Disconnected"
    and st: "st = Blocked (length (shared p)) (length (controllers p)) \<or>
             st = Ready (length (shared p)) (length (controllers p))"
  shows "proxyOk (p\<lparr>shared := shared p @ [Pending], controllers := controllers p @ [False],
               connectionState := st\<rparr>)"
proof (rule invI)
  let ?q = "p\<lparr>shared := shared p @ [Pending], controllers := controllers p @ [False],
               connectionState := st\<rparr>"
  have l: "length (shared p) = length (controllers p)" by (rule inv_len [OF i])
  show "stOk (connectionState ?q) (shared ?q) (controllers ?q) (connections ?q)"
    using st l by (auto simp: nth_append)
  show "cnOk (connectionState ?q) (shared ?q) (controllers ?q) (length (results ?q)) (connections ?q)"
    using cnOk_idle [OF inv_cn [OF i], of st "[Pending]" "[False]"] d by simp
  show "shOk (connectionState ?q) (shared ?q) (controllers ?q) (length (connections ?q))"
    using shOk_idle [OF inv_sh [OF i], of "length (connections p)" st] d by simp
  show "awOk (length (shared ?q)) (length (results ?q)) (awaiting ?q)"
    using awOk_grow [OF inv_aw [OF i], of "Suc (length (shared p))" "length (results p)"] by simp
  show "\<forall>t \<in> set (microtasks ?q). tOk (length (connections ?q)) (length (results ?q)) t"
    using inv_mt [OF i] by simp
  show "methods ?q = []" using inv_me [OF i] by simp
qed

lemma inv_promote:
  assumes i: "proxyOk p" and b: "connectionState p = Blocked r k"
  shows "proxyOk (p\<lparr>connectionState := Ready r k\<rparr>)"
proof (rule invI)
  let ?q = "p\<lparr>connectionState := Ready r k\<rparr>"
  show "stOk (connectionState ?q) (shared ?q) (controllers ?q) (connections ?q)"
    using inv_st [OF i] b by simp
  show "cnOk (connectionState ?q) (shared ?q) (controllers ?q) (length (results ?q)) (connections ?q)"
    using cnOk_idle0 [OF inv_cn [OF i], of "Ready r k"] b by simp
  show "shOk (connectionState ?q) (shared ?q) (controllers ?q) (length (connections ?q))"
    using shOk_idle0 [OF inv_sh [OF i], of "length (connections p)" "Ready r k"] b by simp
  show "awOk (length (shared ?q)) (length (results ?q)) (awaiting ?q)"
    using inv_aw [OF i] by simp
  show "\<forall>t \<in> set (microtasks ?q). tOk (length (connections ?q)) (length (results ?q)) t"
    using inv_mt [OF i] by simp
  show "methods ?q = []" using inv_me [OF i] by simp
qed

lemma requests_new_call:
  "requests (call newWorkerConnection w m a s) = [(1, w)]"
  by (simp add: call_def newWorkerConnection_def)

lemma connect_Ready:
  "proxyOk p \<Longrightarrow> connectionState p = Ready r k \<Longrightarrow>
   connect r k p = p\<lparr>connections := connections p @
     [call newWorkerConnection (ConnectAttempt r k) ''constructor'' (constructorArgs p) (Some k)]\<rparr>"
  using inv_st [of p] by (simp add: connect_def)

lemma inv_start:
  assumes i: "proxyOk p" and rd: "connectionState p = Ready r k"
  shows "proxyOk ((connect r k p)\<lparr>connectionState := Connecting r k\<rparr>)"
proof -
  let ?new = "call newWorkerConnection (ConnectAttempt r k) ''constructor'' (constructorArgs p) (Some k)"
  let ?q = "p\<lparr>connections := connections p @ [?new], connectionState := Connecting r k\<rparr>"
  have st: "r = k" "k < length (controllers p)" "\<not> controllers p ! k" "shared p ! k = Pending"
    using inv_st [OF i] rd by simp_all
  have "proxyOk ?q"
  proof (rule invI)
    show "stOk (connectionState ?q) (shared ?q) (controllers ?q) (connections ?q)"
      using st by simp
    have "cnOk (Connecting r k) (shared p) (controllers p) (length (results p)) (connections p @ [?new])"
      unfolding cnOk_def
    proof (intro allI impI ballI)
      fix c e assume c: "c < length (connections p @ [?new])"
        and e: "e \<in> set (requests ((connections p @ [?new]) ! c))"
      show "wOk (Connecting r k) (shared p) (controllers p) (length (connections p @ [?new]))
              (length (results p)) c e"
      proof (cases "c < length (connections p)")
        case True
        then have "wOk (Ready r k) (shared p) (controllers p) (length (connections p)) (length (results p)) c e"
          using inv_cn [OF i] e rd by (simp add: cnOk_def nth_append)
        then show ?thesis by (rule wOk_idle0) simp
      next
        case False
        then have "c = length (connections p)" using c by simp
        then show ?thesis using e st by (simp add: requests_new_call)
      qed
    qed
    then show "cnOk (connectionState ?q) (shared ?q) (controllers ?q) (length (results ?q)) (connections ?q)"
      by simp
    show "shOk (connectionState ?q) (shared ?q) (controllers ?q) (length (connections ?q))"
      using shOk_idle0 [OF inv_sh [OF i], of "Suc (length (connections p))" "Connecting r k"] rd by simp
    show "awOk (length (shared ?q)) (length (results ?q)) (awaiting ?q)"
      using inv_aw [OF i] by simp
    show "\<forall>t \<in> set (microtasks ?q). tOk (length (connections ?q)) (length (results ?q)) t"
      using mtOk_grow [OF inv_mt [OF i], of "Suc (length (connections p))" "length (results p)"] by simp
    show "methods ?q = []" using inv_me [OF i] by simp
  qed
  then show ?thesis by (simp add: connect_Ready [OF i rd])
qed

lemma inv_tryConnect: "proxyOk p \<Longrightarrow> proxyOk (snd (tryConnect p))"
proof (cases "connectionState p")
  case Disconnected
  assume i: "proxyOk p"
  show "proxyOk (snd (tryConnect p))"
    using inv_allocate [OF i Disconnected] Disconnected
    by (simp add: tryConnect_def makeBlockedState_def)
next
  case (Ready r k)
  assume i: "proxyOk p"
  show "proxyOk (snd (tryConnect p))"
    using inv_start [OF i Ready] Ready by (simp add: tryConnect_def)
qed (simp_all add: tryConnect_def)

lemma inv_ready: "proxyOk p \<Longrightarrow> proxyOk (ready p)"
proof (cases "connectionState p")
  case Disconnected
  assume i: "proxyOk p"
  show "proxyOk (ready p)"
    using inv_allocate [OF i Disconnected] Disconnected
    by (simp add: ready_def makeBlockedState_def)
next
  case (Blocked r k)
  assume i: "proxyOk p"
  have "proxyOk (snd (tryConnect (p\<lparr>connectionState := Ready r k\<rparr>)))"
    by (rule inv_tryConnect [OF inv_promote [OF i Blocked]])
  then show "proxyOk (ready p)" using Blocked by (simp add: ready_def)
qed (simp_all add: ready_def)

subsection \<open>Calling a method\<close>

lemma inv_newResult: assumes i: "proxyOk p" shows "proxyOk (p\<lparr>results := results p @ [Pending]\<rparr>)"
proof (rule invI)
  let ?q = "p\<lparr>results := results p @ [Pending]\<rparr>"
  show "stOk (connectionState ?q) (shared ?q) (controllers ?q) (connections ?q)"
    using inv_st [OF i] by simp
  have "cnOk (connectionState p) (shared p) (controllers p) (Suc (length (results p))) (connections p)"
    using inv_cn [OF i] unfolding cnOk_def by (blast intro: wOk_results le_SucI)
  then show "cnOk (connectionState ?q) (shared ?q) (controllers ?q) (length (results ?q)) (connections ?q)"
    by simp
  show "shOk (connectionState ?q) (shared ?q) (controllers ?q) (length (connections ?q))"
    using inv_sh [OF i] by simp
  show "awOk (length (shared ?q)) (length (results ?q)) (awaiting ?q)"
    using awOk_grow [OF inv_aw [OF i], of "length (shared p)" "Suc (length (results p))"] by simp
  show "\<forall>t \<in> set (microtasks ?q). tOk (length (connections ?q)) (length (results ?q)) t"
    using mtOk_grow [OF inv_mt [OF i], of "length (connections p)" "Suc (length (results p))"] by simp
  show "methods ?q = []" using inv_me [OF i] by simp
qed

lemma inv_await:
  "proxyOk p \<Longrightarrow> r < length (shared p) \<Longrightarrow> P < length (results p)
   \<Longrightarrow> proxyOk (p\<lparr>awaiting := awaiting p @ [(r, (P, m, a))]\<rparr>)"
  by (simp add: proxyOk_def awOk_def)

lemma inv_task:
  "proxyOk p \<Longrightarrow> tOk (length (connections p)) (length (results p)) t
   \<Longrightarrow> proxyOk (p\<lparr>microtasks := microtasks p @ [t]\<rparr>)"
  by (simp add: proxyOk_def)

lemma results_tryConnect: "results (snd (tryConnect p)) = results p"
  by (cases "connectionState p")
     (simp_all add: tryConnect_def makeBlockedState_def connect_def settleShared_def)

lemma tryConnect_Inl:
  assumes i: "proxyOk p" and t: "tryConnect p = (Inl r, q)"
  shows "r < length (shared q)"
proof (cases "connectionState p")
  case Disconnected
  then show ?thesis using t by (auto simp: tryConnect_def makeBlockedState_def)
next
  case (Blocked r' k)
  then show ?thesis using t inv_st [OF i] inv_len [OF i] by (auto simp: tryConnect_def)
next
  case (Ready r' k)
  then show ?thesis using t inv_st [OF i] inv_len [OF i] connect_Ready [OF i Ready]
    by (auto simp: tryConnect_def)
next
  case (Connecting r' k)
  then show ?thesis using t inv_st [OF i] inv_len [OF i] by (auto simp: tryConnect_def)
next
  case (Connected c k)
  then show ?thesis using t by (simp add: tryConnect_def)
qed

lemma tryConnect_Inr:
  assumes i: "proxyOk p" and t: "tryConnect p = (Inr (c, k), q)"
  shows "c < length (connections q)"
  using t inv_st [OF i]
  by (cases "connectionState p") (auto simp: tryConnect_def split: prod.splits)

lemma inv_invoke: assumes i: "proxyOk p" shows "proxyOk (snd (invoke m a p))"
proof -
  let ?p1 = "p\<lparr>results := results p @ [Pending]\<rparr>"
  obtain t q where t: "tryConnect ?p1 = (t, q)" by (cases "tryConnect ?p1")
  have i1: "proxyOk ?p1" by (rule inv_newResult [OF i])
  have iq: "proxyOk q" using inv_tryConnect [OF i1] t by simp
  have rq: "results q = results p @ [Pending]" using results_tryConnect [of ?p1] t by simp
  have P: "length (results p) < length (results q)" using rq by simp
  show ?thesis
  proof (cases t)
    case (Inl r)
    have r: "r < length (shared q)" using tryConnect_Inl [OF i1] t Inl by simp
    show ?thesis
    proof (cases "shared q ! r")
      case Pending
      then show ?thesis using t Inl inv_await [OF iq r P] by (simp add: invoke_def)
    next
      case (Fulfilled ck)
      obtain c k where ck: "ck = (c, k)" by (cases ck)
      have "c < length (connections q)"
        using inv_sh [OF iq] r Fulfilled ck unfolding shOk_def by blast
      then have "tOk (length (connections q)) (length (results q)) ((length (results p), m, a), Fulfilled ck)"
        using P ck by simp
      from inv_task [OF iq this] show ?thesis using t Inl Fulfilled by (simp add: invoke_def)
    next
      case (Rejected err)
      have "tOk (length (connections q)) (length (results q)) ((length (results p), m, a), Rejected err)"
        using P by simp
      from inv_task [OF iq this] show ?thesis using t Inl Rejected by (simp add: invoke_def)
    qed
  next
    case (Inr ck)
    obtain c k where ck: "ck = (c, k)" by (cases ck)
    have "c < length (connections q)" using tryConnect_Inr [OF i1] t Inr ck by simp
    then have "tOk (length (connections q)) (length (results q)) ((length (results p), m, a), Fulfilled ck)"
      using P ck by simp
    from inv_task [OF iq this] show ?thesis using t Inr by (simp add: invoke_def)
  qed
qed

lemma inv_callMethod: "proxyOk p \<Longrightarrow> proxyOk (snd (callMethod m a p))"
  using inv_invoke [OF inv_getMethod, of p "closures (snd (getMethod m p)) ! fst (getMethod m p)" a m]
  by (simp add: callMethod_def split_def)

subsection \<open>Microtasks\<close>

lemma inv_settleResult: "proxyOk p \<Longrightarrow> proxyOk (settleResult P v p)"
  by (simp add: proxyOk_def settleResult_def)

lemma set_update_subset: "set (AList.update k v al) \<subseteq> insert (k, v) (set al)"
  by (induction al) auto

lemma set_delete_eq: "set (AList.delete k al) = {e \<in> set al. fst e \<noteq> k}"
  by (induction al) auto

lemma inv_replace:
  assumes i: "proxyOk p" and c: "c < length (connections p)"
    and l: "listening conn = listening (connections p ! c)"
    and w: "\<forall>e \<in> set (requests conn). e \<in> set (requests (connections p ! c)) \<or>
              (\<exists>i P. e = (i, MethodResult P) \<and> P < length (results p))"
  shows "proxyOk (p\<lparr>connections := (connections p)[c := conn]\<rparr>)"
proof (rule invI)
  let ?q = "p\<lparr>connections := (connections p)[c := conn]\<rparr>"
  have na: "noAttempt (connections p ! c) \<Longrightarrow> noAttempt conn"
    using w unfolding noAttempt_def by fastforce
  show "stOk (connectionState ?q) (shared ?q) (controllers ?q) (connections ?q)"
  proof (cases "connectionState p")
    case (Connected c' k)
    then show ?thesis using inv_st [OF i] l na c by (cases "c' = c") simp_all
  qed (use inv_st [OF i] in simp_all)
  have "cnOk (connectionState p) (shared p) (controllers p) (length (results p)) ((connections p)[c := conn])"
    unfolding cnOk_def
  proof (intro allI impI ballI)
    fix c' e assume c': "c' < length ((connections p)[c := conn])"
      and e: "e \<in> set (requests ((connections p)[c := conn] ! c'))"
    show "wOk (connectionState p) (shared p) (controllers p) (length ((connections p)[c := conn]))
            (length (results p)) c' e"
    proof (cases "c' = c")
      case False
      then show ?thesis using inv_cn [OF i] c' e by (simp add: cnOk_def)
    next
      case True
      then have "e \<in> set (requests conn)" using e c by simp
      then consider "e \<in> set (requests (connections p ! c))"
        | i P where "e = (i, MethodResult P)" "P < length (results p)"
        using w by blast
      then show ?thesis
      proof cases
        case 1
        then show ?thesis using inv_cn [OF i] c True by (simp add: cnOk_def)
      next
        case 2
        then show ?thesis by simp
      qed
    qed
  qed
  then show "cnOk (connectionState ?q) (shared ?q) (controllers ?q) (length (results ?q)) (connections ?q)"
    by simp
  show "shOk (connectionState ?q) (shared ?q) (controllers ?q) (length (connections ?q))"
    using inv_sh [OF i] by simp
  show "awOk (length (shared ?q)) (length (results ?q)) (awaiting ?q)"
    using inv_aw [OF i] by simp
  show "\<forall>t \<in> set (microtasks ?q). tOk (length (connections ?q)) (length (results ?q)) t"
    using inv_mt [OF i] by simp
  show "methods ?q = []" using inv_me [OF i] by simp
qed

lemma inv_resume:
  assumes i: "proxyOk p" and t: "tOk (length (connections p)) (length (results p)) t"
  shows "proxyOk (resume t p)"
proof -
  obtain P m a v where tt: "t = ((P, m, a), v)" by (cases t) auto
  show ?thesis
  proof (cases v)
    case Pending
    then show ?thesis using i tt by simp
  next
    case (Rejected err)
    then show ?thesis using inv_settleResult [OF i] tt by simp
  next
    case (Fulfilled ck)
    obtain c k where ck: "ck = (c, k)" by (cases ck)
    have c: "c < length (connections p)" and P: "P < length (results p)"
      using t tt Fulfilled ck by simp_all
    have "proxyOk (p\<lparr>connections := (connections p)
            [c := call (connections p ! c) (MethodResult P) m a (Some k)]\<rparr>)"
    proof (rule inv_replace [OF i c])
      show "listening (call (connections p ! c) (MethodResult P) m a (Some k)) = listening (connections p ! c)"
        by (simp add: call_def)
      show "\<forall>e\<in>set (requests (call (connections p ! c) (MethodResult P) m a (Some k))).
              e \<in> set (requests (connections p ! c)) \<or>
              (\<exists>i P. e = (i, MethodResult P) \<and> P < length (results p))"
        using set_update_subset [of "nextCallId (connections p ! c)" "MethodResult P" "requests (connections p ! c)"] P
        by (auto simp: call_def)
    qed
    then show ?thesis using tt Fulfilled ck by simp
  qed
qed

lemma length_resume:
  "length (connections (resume t p)) = length (connections p) \<and>
   length (results (resume t p)) = length (results p)"
  by (cases "(t, p)" rule: resume.cases) (simp_all add: settleResult_def)

lemma inv_resumes:
  "proxyOk p \<Longrightarrow> \<forall>t \<in> set ts. tOk (length (connections p)) (length (results p)) t
   \<Longrightarrow> proxyOk (foldl (\<lambda>q t. resume t q) p ts)"
proof (induction ts arbitrary: p)
  case Nil
  then show ?case by simp
next
  case (Cons t ts)
  have "proxyOk (resume t p)" using Cons.prems by (intro inv_resume) simp_all
  moreover have "\<forall>t' \<in> set ts. tOk (length (connections (resume t p))) (length (results (resume t p))) t'"
    using Cons.prems by (simp add: length_resume)
  ultimately show ?case using Cons.IH by simp
qed

lemma inv_runMicrotasks: assumes i: "proxyOk p" shows "proxyOk (runMicrotasks p)"
proof -
  have "proxyOk (p\<lparr>microtasks := []\<rparr>)" using i by (simp add: proxyOk_def)
  moreover have "\<forall>t \<in> set (microtasks p).
      tOk (length (connections (p\<lparr>microtasks := []\<rparr>))) (length (results (p\<lparr>microtasks := []\<rparr>))) t"
    using inv_mt [OF i] by simp
  ultimately show ?thesis unfolding runMicrotasks_def by (rule inv_resumes)
qed

subsection \<open>Settling the shared promise\<close>

lemma tOk_moved:
  assumes a: "awOk ns m aw" and v: "\<forall>c k. v = Fulfilled (c, k) \<longrightarrow> c < n"
  shows "\<forall>t \<in> set (map (\<lambda>w. (snd w, v)) (filter (\<lambda>w. fst w = r) aw)). tOk n m t"
proof
  fix t assume "t \<in> set (map (\<lambda>w. (snd w, v)) (filter (\<lambda>w. fst w = r) aw))"
  then obtain w where w: "w \<in> set aw" and t: "t = (snd w, v)" by auto
  have "fst (snd w) < m" using a w by (simp add: awOk_def)
  then show "tOk n m t" using t v by (cases v) auto
qed

lemma mtOk_moved:
  assumes "\<forall>t \<in> set mt. tOk n m t" and "awOk ns m aw" and "\<forall>c k. v = Fulfilled (c, k) \<longrightarrow> c < n"
  shows "\<forall>t \<in> set (mt @ map (\<lambda>w. (snd w, v)) (filter (\<lambda>w. fst w = r) aw)). tOk n m t"
  using assms(1) tOk_moved [OF assms(2,3), of r] unfolding set_append by blast

lemma awOk_filter: "awOk ns m aw \<Longrightarrow> awOk ns m (filter f aw)"
  by (simp add: awOk_def)

lemma inv_reject:
  assumes i: "proxyOk p" and r: "r < length (shared p)"
    and a: "controllers p ! r \<or>
            (connectionState p = Connecting r r \<and> Suc c = length (connections p) \<and>
             noAttempt (connections p ! c))"
  shows "proxyOk (settleShared r (Rejected err) p)"
proof (cases "shared p ! r = Pending")
  case False
  then show ?thesis using i by (simp add: settleShared_def)
next
  case True
  let ?q = "p\<lparr>shared := (shared p)[r := Rejected err],
             microtasks := microtasks p @ map (\<lambda>w. (snd w, Rejected err)) (filter (\<lambda>w. fst w = r) (awaiting p)),
             awaiting := filter (\<lambda>w. fst w \<noteq> r) (awaiting p)\<rparr>"
  have l: "length (shared p) = length (controllers p)" by (rule inv_len [OF i])
  have "proxyOk ?q"
  proof (rule invI)
    show "stOk (connectionState ?q) (shared ?q) (controllers ?q) (connections ?q)"
    proof (cases "connectionState p")
      case (Blocked r' k)
      then show ?thesis using inv_st [OF i] a by (cases "k = r") auto
    next
      case (Ready r' k)
      then show ?thesis using inv_st [OF i] a by (cases "k = r") auto
    next
      case (Connected c' k)
      then show ?thesis using inv_st [OF i] a by (cases "k = r") auto
    qed (use inv_st [OF i] in simp_all)
    have "cnOk (connectionState p) ((shared p)[r := Rejected err]) (controllers p) (length (results p)) (connections p)"
      unfolding cnOk_def
    proof (intro allI impI ballI)
      fix c' e assume c': "c' < length (connections p)" and e: "e \<in> set (requests (connections p ! c'))"
      have o: "wOk (connectionState p) (shared p) (controllers p) (length (connections p)) (length (results p)) c' e"
        using inv_cn [OF i] c' e by (simp add: cnOk_def)
      obtain j w where ew: "e = (j, w)" by (cases e)
      show "wOk (connectionState p) ((shared p)[r := Rejected err]) (controllers p) (length (connections p))
              (length (results p)) c' e"
      proof (cases w)
        case (MethodResult P)
        then show ?thesis using o ew by simp
      next
        case (ConnectAttempt r' k')
        show ?thesis
        proof (cases "controllers p ! k'")
          case True
          then show ?thesis using o ew ConnectAttempt by simp
        next
          case False
          then have f: "connectionState p = Connecting r' k'" "Suc c' = length (connections p)" "r' = k'"
            using o ew ConnectAttempt by simp_all
          have "k' \<noteq> r"
          proof
            assume "k' = r"
            then have "noAttempt (connections p ! c)" "c' = c" using a False f by auto
            then show False using e ew ConnectAttempt by (auto simp: noAttempt_def)
          qed
          then show ?thesis using o ew ConnectAttempt by simp
        qed
      qed
    qed
    then show "cnOk (connectionState ?q) (shared ?q) (controllers ?q) (length (results ?q)) (connections ?q)"
      by simp
    have "shOk (connectionState p) ((shared p)[r := Rejected err]) (controllers p) (length (connections p))"
      unfolding shOk_def
    proof (intro conjI allI impI)
      show "length ((shared p)[r := Rejected err]) = length (controllers p)" using l by simp
    next
      fix r' c' k' assume r': "r' < length ((shared p)[r := Rejected err])"
        and f: "(shared p)[r := Rejected err] ! r' = Fulfilled (c', k')"
      have ne: "r' \<noteq> r" using f r by auto
      then have "shared p ! r' = Fulfilled (c', k')" using f by simp
      then have o: "r' = k'" "c' < length (connections p)"
          "\<not> controllers p ! k' \<longrightarrow> connectionState p = Connected c' k'"
        using inv_sh [OF i] r' unfolding shOk_def by auto
      show "r' = k'" by (rule o)
      show "c' < length (connections p)" by (rule o)
      assume "\<not> controllers p ! k'"
      then show "connectionState p = Connected c' k'" using o by simp
    qed
    then show "shOk (connectionState ?q) (shared ?q) (controllers ?q) (length (connections ?q))"
      by simp
    show "awOk (length (shared ?q)) (length (results ?q)) (awaiting ?q)"
      using awOk_filter [OF inv_aw [OF i]] by simp
    have "\<forall>t \<in> set (microtasks p @ map (\<lambda>w. (snd w, Rejected err)) (filter (\<lambda>w. fst w = r) (awaiting p))).
            tOk (length (connections p)) (length (results p)) t"
      by (rule mtOk_moved [OF inv_mt [OF i] inv_aw [OF i]]) simp
    then show "\<forall>t \<in> set (microtasks ?q). tOk (length (connections ?q)) (length (results ?q)) t"
      by simp
    show "methods ?q = []" using inv_me [OF i] by simp
  qed
  then show ?thesis using True by (simp add: settleShared_def)
qed

lemma inv_dispose:
  assumes i: "proxyOk p" and d: "\<forall>k. connectionState p \<noteq> Connected c k"
  shows "proxyOk (p\<lparr>connections := (connections p)[c := dispose (connections p ! c)]\<rparr>)"
proof (rule invI)
  let ?q = "p\<lparr>connections := (connections p)[c := dispose (connections p ! c)]\<rparr>"
  show "stOk (connectionState ?q) (shared ?q) (controllers ?q) (connections ?q)"
  proof (cases "connectionState p")
    case (Connected c' k)
    then have "c' \<noteq> c" using d by auto
    then show ?thesis using inv_st [OF i] Connected by simp
  qed (use inv_st [OF i] in simp_all)
  show "cnOk (connectionState ?q) (shared ?q) (controllers ?q) (length (results ?q)) (connections ?q)"
    using inv_cn [OF i] by (simp add: cnOk_dispose)
  show "shOk (connectionState ?q) (shared ?q) (controllers ?q) (length (connections ?q))"
    using inv_sh [OF i] by simp
  show "awOk (length (shared ?q)) (length (results ?q)) (awaiting ?q)"
    using inv_aw [OF i] by simp
  show "\<forall>t \<in> set (microtasks ?q). tOk (length (connections ?q)) (length (results ?q)) t"
    using inv_mt [OF i] by simp
  show "methods ?q = []" using inv_me [OF i] by simp
qed

lemma inv_connected:
  assumes i: "proxyOk p" and k: "k < length (controllers p)" and c: "c < length (connections p)"
    and li: "listening (connections p ! c)" and na: "noAttempt (connections p ! c)"
    and nk: "\<not> controllers p ! k" and st: "connectionState p = Connecting k k"
    and sc: "Suc c = length (connections p)" and pe: "shared p ! k = Pending"
  shows "proxyOk (settleShared k (Fulfilled (c, k)) (p\<lparr>connectionState := Connected c k\<rparr>))"
proof -
  let ?q = "p\<lparr>connectionState := Connected c k, shared := (shared p)[k := Fulfilled (c, k)],
             microtasks := microtasks p @ map (\<lambda>w. (snd w, Fulfilled (c, k))) (filter (\<lambda>w. fst w = k) (awaiting p)),
             awaiting := filter (\<lambda>w. fst w \<noteq> k) (awaiting p)\<rparr>"
  have l: "length (shared p) = length (controllers p)" by (rule inv_len [OF i])
  have "proxyOk ?q"
  proof (rule invI)
    show "stOk (connectionState ?q) (shared ?q) (controllers ?q) (connections ?q)"
      using k c li na nk l by simp
    have "cnOk (Connected c k) ((shared p)[k := Fulfilled (c, k)]) (controllers p) (length (results p)) (connections p)"
      unfolding cnOk_def
    proof (intro allI impI ballI)
      fix c' e assume c': "c' < length (connections p)" and e: "e \<in> set (requests (connections p ! c'))"
      have o: "wOk (connectionState p) (shared p) (controllers p) (length (connections p)) (length (results p)) c' e"
        using inv_cn [OF i] c' e by (simp add: cnOk_def)
      obtain j w where ew: "e = (j, w)" by (cases e)
      show "wOk (Connected c k) ((shared p)[k := Fulfilled (c, k)]) (controllers p) (length (connections p))
              (length (results p)) c' e"
      proof (cases w)
        case (MethodResult P)
        then show ?thesis using o ew by simp
      next
        case (ConnectAttempt r' k')
        have "controllers p ! k'"
        proof (rule ccontr)
          assume "\<not> controllers p ! k'"
          then have "Suc c' = length (connections p)" using o ew ConnectAttempt by simp
          then have "c' = c" using sc by simp
          then show False using na e ew ConnectAttempt by (auto simp: noAttempt_def)
        qed
        then show ?thesis using o ew ConnectAttempt by simp
      qed
    qed
    then show "cnOk (connectionState ?q) (shared ?q) (controllers ?q) (length (results ?q)) (connections ?q)"
      by simp
    have "shOk (Connected c k) ((shared p)[k := Fulfilled (c, k)]) (controllers p) (length (connections p))"
      unfolding shOk_def
    proof (intro conjI allI impI)
      show "length ((shared p)[k := Fulfilled (c, k)]) = length (controllers p)" using l by simp
    next
      fix r' c' k' assume r': "r' < length ((shared p)[k := Fulfilled (c, k)])"
        and f: "(shared p)[k := Fulfilled (c, k)] ! r' = Fulfilled (c', k')"
      have "r' = k' \<and> c' < length (connections p) \<and> (\<not> controllers p ! k' \<longrightarrow> Connected c k = Connected c' k')"
      proof (cases "r' = k")
        case True
        then have "c' = c" "k' = k" using f k l by simp_all
        then show ?thesis using True c by simp
      next
        case False
        then have "shared p ! r' = Fulfilled (c', k')" using f by simp
        then have o: "r' = k'" "c' < length (connections p)"
            "\<not> controllers p ! k' \<longrightarrow> connectionState p = Connected c' k'"
          using inv_sh [OF i] r' unfolding shOk_def by auto
        then show ?thesis using st by auto
      qed
      then show "r' = k'" "c' < length (connections p)"
        "\<not> controllers p ! k' \<Longrightarrow> Connected c k = Connected c' k'" by simp_all
    qed
    then show "shOk (connectionState ?q) (shared ?q) (controllers ?q) (length (connections ?q))"
      by simp
    show "awOk (length (shared ?q)) (length (results ?q)) (awaiting ?q)"
      using awOk_filter [OF inv_aw [OF i]] by simp
    have "\<forall>t \<in> set (microtasks p @ map (\<lambda>w. (snd w, Fulfilled (c, k))) (filter (\<lambda>w. fst w = k) (awaiting p))).
            tOk (length (connections p)) (length (results p)) t"
      by (rule mtOk_moved [OF inv_mt [OF i] inv_aw [OF i]]) (simp add: c)
    then show "\<forall>t \<in> set (microtasks ?q). tOk (length (connections ?q)) (length (results ?q)) t"
      by simp
    show "methods ?q = []" using inv_me [OF i] by simp
  qed
  then show ?thesis using pe by (simp add: settleShared_def)
qed

lemma inv_applyEffect:
  assumes i: "proxyOk p" and e: "effOk p c eff"
  shows "proxyOk (applyEffect c eff p)"
proof (cases eff)
  case (Warn w)
  then show ?thesis using i by (simp add: proxyOk_def)
next
  case (Settle w out)
  show ?thesis
  proof (cases w)
    case (MethodResult P)
    then show ?thesis using Settle inv_settleResult [OF i] by (cases out) simp_all
  next
    case (ConnectAttempt r k)
    have f: "r = k" "k < length (controllers p)" "c < length (connections p)"
        "listening (connections p ! c)" "noAttempt (connections p ! c)"
        "\<forall>k'. connectionState p \<noteq> Connected c k'"
      and g: "\<not> controllers p ! k \<Longrightarrow> connectionState p = Connecting k k \<and> Suc c = length (connections p)"
      using e Settle ConnectAttempt by simp_all
    have rl: "r < length (shared p)" using f inv_len [OF i] by simp
    show ?thesis
    proof (cases out)
      case (Reject err)
      have "proxyOk (settleShared r (Rejected err) p)"
        using g f by (intro inv_reject [OF i rl, of c]) auto
      then show ?thesis using Settle ConnectAttempt Reject by simp
    next
      case (Resolve v)
      show ?thesis
      proof (cases "controllers p ! k")
        case True
        let ?d = "p\<lparr>connections := (connections p)[c := dispose (connections p ! c)]\<rparr>"
        have "proxyOk ?d" by (rule inv_dispose [OF i f(6)])
        then have "proxyOk (settleShared r (Rejected AbortError) ?d)"
          using rl True f(1) by (intro inv_reject [of ?d r c]) simp_all
        then show ?thesis using Settle ConnectAttempt Resolve True by simp
      next
        case False
        have pe: "shared p ! k = Pending" using e Settle ConnectAttempt Resolve False by simp
        have "proxyOk (settleShared k (Fulfilled (c, k)) (p\<lparr>connectionState := Connected c k\<rparr>))"
          using g [OF False] by (intro inv_connected [OF i f(2,3,4,5) False _ _ pe]) simp_all
        then show ?thesis using Settle ConnectAttempt Resolve False f(1) by simp
      qed
    qed
  qed
qed

subsection \<open>Worker events\<close>

lemma listening_resume: "listening (connections (resume t p) ! c) = listening (connections p ! c)"
proof (cases "(t, p)" rule: resume.cases)
  case (1 P m a c' k q)
  then show ?thesis
    by (cases "c' = c"; cases "c' < length (connections p)")
       (simp_all add: call_def list_update_beyond)
qed (simp_all add: settleResult_def)

lemma state_resume: "connectionState (resume t p) = connectionState p"
  by (cases "(t, p)" rule: resume.cases) (simp_all add: settleResult_def)

lemma frame_resumes:
  "length (connections (foldl (\<lambda>q t. resume t q) p ts)) = length (connections p) \<and>
   listening (connections (foldl (\<lambda>q t. resume t q) p ts) ! c) = listening (connections p ! c) \<and>
   connectionState (foldl (\<lambda>q t. resume t q) p ts) = connectionState p"
  by (induction ts arbitrary: p) (simp_all add: length_resume listening_resume state_resume)

lemma frame_runMicrotasks:
  "length (connections (runMicrotasks p)) = length (connections p)"
  "listening (connections (runMicrotasks p) ! c) = listening (connections p ! c)"
  "connectionState (runMicrotasks p) = connectionState p"
  using frame_resumes [of "p\<lparr>microtasks := []\<rparr>" "microtasks p" c]
  by (simp_all add: runMicrotasks_def)

lemma frame_settleShared:
  "connectionState (settleShared r v p) = connectionState p"
  "controllers (settleShared r v p) = controllers p"
  "connections (settleShared r v p) = connections p"
  "results (settleShared r v p) = results p"
  by (simp_all add: settleShared_def)

lemma effOk_reject_stable:
  assumes "isReject eff" "isReject eff'"
  shows "effOk (applyEffect c eff p) c' eff' = effOk p c' eff'"
proof -
  obtain w x where e: "eff = Settle w (Reject x)" using assms(1) by (cases eff rule: isReject.cases) auto
  obtain w' x' where e': "eff' = Settle w' (Reject x')" using assms(2) by (cases eff' rule: isReject.cases) auto
  show ?thesis
    by (cases w; cases w') (simp_all add: e e' settleResult_def frame_settleShared)
qed

lemma inv_applyRejects:
  "proxyOk p \<Longrightarrow> \<forall>eff \<in> set effs. isReject eff \<and> effOk p c eff
   \<Longrightarrow> proxyOk (foldl (\<lambda>q e. applyEffect c e q) p effs)"
proof (induction effs arbitrary: p)
  case Nil
  then show ?case by simp
next
  case (Cons eff effs)
  have "proxyOk (applyEffect c eff p)" using Cons.prems by (intro inv_applyEffect) simp_all
  moreover have "\<forall>eff' \<in> set effs. isReject eff' \<and> effOk (applyEffect c eff p) c eff'"
    using Cons.prems by (simp add: effOk_reject_stable)
  ultimately show ?case using Cons.IH by simp
qed

lemma effOk_entry:
  assumes i: "proxyOk p" and c: "c < length (connections p)" and li: "listening (connections p ! c)"
    and e: "(j, w) \<in> set (requests (connections p ! c))"
    and l': "listening conn" and na: "\<forall>e \<in> set (requests conn). e \<in> set (requests (connections p ! c)) \<and> fst e \<noteq> 1"
  shows "effOk (p\<lparr>connections := (connections p)[c := conn]\<rparr>) c (Settle w out)"
proof (cases w)
  case (MethodResult P)
  have "wOk (connectionState p) (shared p) (controllers p) (length (connections p)) (length (results p)) c (j, w)"
    using inv_cn [OF i] c e unfolding cnOk_def by blast
  then show ?thesis using MethodResult by simp
next
  case (ConnectAttempt r k)
  have o: "wOk (connectionState p) (shared p) (controllers p) (length (connections p)) (length (results p)) c (j, w)"
    using inv_cn [OF i] c e unfolding cnOk_def by blast
  have n: "noAttempt conn"
    unfolding noAttempt_def
  proof
    fix e' assume e': "e' \<in> set (requests conn)"
    then have m: "e' \<in> set (requests (connections p ! c))" and k: "fst e' \<noteq> 1" using na by auto
    have "wOk (connectionState p) (shared p) (controllers p) (length (connections p)) (length (results p)) c e'"
      using inv_cn [OF i] c m unfolding cnOk_def by blast
    then show "\<not> isAttempt (snd e')" using k by (cases e'; cases "snd e'") auto
  qed
  have nc: "\<forall>k'. connectionState p \<noteq> Connected c k'"
  proof (intro allI notI)
    fix k' assume "connectionState p = Connected c k'"
    then have "noAttempt (connections p ! c)" using inv_st [OF i] by simp
    then show False using e ConnectAttempt by (auto simp: noAttempt_def)
  qed
  show ?thesis using o ConnectAttempt n nc c l' by auto
qed

lemma workerError_skip:
  "\<not> (c < length (connections p) \<and> listening (connections p ! c)) \<Longrightarrow> workerError c e p = p"
  unfolding workerError_def by (rule if_not_P)

lemma workerMessage_skip:
  "\<not> (c < length (connections p) \<and> listening (connections p ! c)) \<Longrightarrow> workerMessage c msg p = p"
  unfolding workerMessage_def by (rule if_not_P)

lemma inv_workerError: assumes i: "proxyOk p" shows "proxyOk (workerError c e p)"
proof (cases "c < length (connections p) \<and> listening (connections p ! c)")
  case False
  show ?thesis using i workerError_skip [OF False] by simp
next
  case True
  let ?p0 = "runMicrotasks p"
  let ?conn = "(connections ?p0 ! c)\<lparr>requests := []\<rparr>"
  let ?p1 = "?p0\<lparr>connections := (connections ?p0)[c := ?conn]\<rparr>"
  let ?effs = "map (\<lambda>request. Settle request (Reject (ErrorEvent e))) (map snd (requests (connections ?p0 ! c)))"
  have i0: "proxyOk ?p0" by (rule inv_runMicrotasks [OF i])
  have c0: "c < length (connections ?p0)" and l0: "listening (connections ?p0 ! c)"
    using True by (simp_all add: frame_runMicrotasks)
  have i1: "proxyOk ?p1" by (rule inv_replace [OF i0 c0]) simp_all
  have "\<forall>eff \<in> set ?effs. isReject eff \<and> effOk ?p1 c eff"
  proof
    fix eff assume "eff \<in> set ?effs"
    then obtain j w where jw: "(j, w) \<in> set (requests (connections ?p0 ! c))"
      and eff: "eff = Settle w (Reject (ErrorEvent e))" by auto
    have "effOk ?p1 c (Settle w (Reject (ErrorEvent e)))"
      by (rule effOk_entry [OF i0 c0 l0 jw]) (simp_all add: l0)
    then show "isReject eff \<and> effOk ?p1 c eff" using eff by simp
  qed
  from inv_applyRejects [OF i1 this]
  have "proxyOk (runMicrotasks (foldl (\<lambda>q e. applyEffect c e q) ?p1 ?effs))"
    by (rule inv_runMicrotasks)
  then show ?thesis using True by (simp add: workerError_def onError_def)
qed

lemma inv_workerMessage: assumes i: "proxyOk p" shows "proxyOk (workerMessage c msg p)"
proof (cases "c < length (connections p) \<and> listening (connections p ! c)")
  case False
  show ?thesis using i workerMessage_skip [OF False] by simp
next
  case True
  let ?p0 = "runMicrotasks p"
  let ?j = "message_id msg"
  have i0: "proxyOk ?p0" by (rule inv_runMicrotasks [OF i])
  have c0: "c < length (connections ?p0)" and l0: "listening (connections ?p0 ! c)"
    using True by (simp_all add: frame_runMicrotasks)
  show ?thesis
  proof (cases "map_of (requests (connections ?p0 ! c)) ?j")
    case None
    have "proxyOk (runMicrotasks ?p0)" by (rule inv_runMicrotasks [OF i0])
    then show ?thesis using True None by (simp add: workerMessage_def onMessage_def)
  next
    case (Some w)
    let ?conn = "(connections ?p0 ! c)\<lparr>requests := AList.delete ?j (requests (connections ?p0 ! c))\<rparr>"
    let ?p1 = "?p0\<lparr>connections := (connections ?p0)[c := ?conn]\<rparr>"
    have jw: "(?j, w) \<in> set (requests (connections ?p0 ! c))" using Some by (rule map_of_SomeD)
    have i1: "proxyOk ?p1" by (rule inv_replace [OF i0 c0]) (simp_all add: set_delete_eq)
    have o: "wOk (connectionState ?p0) (shared ?p0) (controllers ?p0) (length (connections ?p0)) (length (results ?p0)) c (?j, w)"
      using inv_cn [OF i0] c0 jw unfolding cnOk_def by blast
    have eo: "effOk ?p1 c (respond w msg)"
    proof (cases "\<exists>t n. msg = Unrecognized t n")
      case True
      then show ?thesis by auto
    next
      case False
      then obtain out where r: "respond w msg = Settle w out" by (cases msg) auto
      show ?thesis
      proof (cases w)
        case (MethodResult P)
        then show ?thesis using o r by simp
      next
        case (ConnectAttempt r' k')
        then have j1: "?j = 1" using o by simp
        have "effOk ?p1 c (Settle w out)"
          by (rule effOk_entry [OF i0 c0 l0 jw]) (simp_all add: l0 set_delete_eq j1)
        then show ?thesis using r by simp
      qed
    qed
    have "proxyOk (runMicrotasks (applyEffect c (respond w msg) ?p1))"
      by (rule inv_runMicrotasks [OF inv_applyEffect [OF i1 eo]])
    then show ?thesis using True Some by (simp add: workerMessage_def onMessage_def)
  qed
qed

lemma alive_ready: "alive (connectionState (ready p))"
  by (cases "connectionState p")
     (simp_all add: ready_def makeBlockedState_def tryConnect_def)

lemma state_disconnect: "connectionState (disconnect p) = Disconnected"
  by (cases "connectionState p") (simp_all add: disconnect_def)

lemma alive_tryConnect: "alive (connectionState (snd (tryConnect p))) = alive (connectionState p)"
  by (cases "connectionState p") (simp_all add: tryConnect_def makeBlockedState_def)

lemma state_invoke: "connectionState (snd (invoke m a p)) = connectionState (snd (tryConnect (p\<lparr>results := results p @ [Pending]\<rparr>)))"
  by (simp add: invoke_def split: prod.splits sum.splits promise.splits)

lemma alive_callMethod: "alive (connectionState (snd (callMethod m a p))) = alive (connectionState p)"
proof -
  obtain f q where g: "getMethod m p = (f, q)" by (cases "getMethod m p")
  have q: "connectionState q = connectionState p"
    using g by (auto simp: getMethod_def split: option.splits)
  show ?thesis
    using alive_tryConnect [of "q\<lparr>results := results q @ [Pending]\<rparr>"]
    by (simp add: callMethod_def g state_invoke q)
qed

lemma state_applyEffect:
  "connectionState (applyEffect c eff p) = connectionState p \<or>
   (\<exists>r k v. eff = Settle (ConnectAttempt r k) (Resolve v) \<and> \<not> controllers p ! k \<and>
      connectionState (applyEffect c eff p) = Connected c k)"
proof (cases eff)
  case (Warn w)
  then show ?thesis by simp
next
  case (Settle w out)
  then show ?thesis
    by (cases w; cases out) (simp_all add: settleResult_def frame_settleShared)
qed

lemma state_applyRejects:
  "\<forall>eff \<in> set effs. isReject eff \<Longrightarrow>
   connectionState (foldl (\<lambda>q e. applyEffect c e q) p effs) = connectionState p"
proof (induction effs arbitrary: p)
  case Nil
  then show ?case by simp
next
  case (Cons eff effs)
  then obtain w x where "eff = Settle w (Reject x)" by (cases eff rule: isReject.cases) auto
  then have "connectionState (applyEffect c eff p) = connectionState p"
    using state_applyEffect [of c eff p] by auto
  then show ?case using Cons by simp
qed

lemma state_workerError: "connectionState (workerError c e p) = connectionState p"
proof (cases "c < length (connections p) \<and> listening (connections p ! c)")
  case False
  show ?thesis using workerError_skip [OF False] by simp
next
  case True
  have "\<forall>eff \<in> set (map (\<lambda>request. Settle request (Reject (ErrorEvent e)))
            (map snd (requests (connections (runMicrotasks p) ! c)))). isReject eff"
    by auto
  from state_applyRejects [OF this] show ?thesis
    using True by (simp add: workerError_def onError_def frame_runMicrotasks)
qed

text \<open>the state changes on a message only when the answer to the constructor call arrives\<close>
lemma state_workerMessage:
  assumes i: "proxyOk p"
  shows "connectionState (workerMessage c msg p) = connectionState p \<or>
         (\<exists>k v. msg = WorkerCallSuccess 1 v \<and> connectionState p = Connecting k k \<and>
            Suc c = length (connections p) \<and> listening (connections p ! c) \<and>
            connectionState (workerMessage c msg p) = Connected c k)"
proof (cases "c < length (connections p) \<and> listening (connections p ! c)")
  case False
  show ?thesis using workerMessage_skip [OF False] by simp
next
  case True
  let ?p0 = "runMicrotasks p"
  let ?j = "message_id msg"
  have i0: "proxyOk ?p0" by (rule inv_runMicrotasks [OF i])
  have c0: "c < length (connections ?p0)" using True by (simp add: frame_runMicrotasks)
  show ?thesis
  proof (cases "map_of (requests (connections ?p0 ! c)) ?j")
    case None
    then show ?thesis using True
      by (simp add: workerMessage_def onMessage_def frame_runMicrotasks)
  next
    case (Some w)
    let ?conn = "(connections ?p0 ! c)\<lparr>requests := AList.delete ?j (requests (connections ?p0 ! c))\<rparr>"
    let ?p1 = "?p0\<lparr>connections := (connections ?p0)[c := ?conn]\<rparr>"
    have wm: "workerMessage c msg p = runMicrotasks (applyEffect c (respond w msg) ?p1)"
      using True Some by (simp add: workerMessage_def onMessage_def)
    have s1: "connectionState ?p1 = connectionState p" by (simp add: frame_runMicrotasks)
    have jw: "(?j, w) \<in> set (requests (connections ?p0 ! c))" using Some by (rule map_of_SomeD)
    have o: "wOk (connectionState ?p0) (shared ?p0) (controllers ?p0) (length (connections ?p0)) (length (results ?p0)) c (?j, w)"
      using inv_cn [OF i0] c0 jw unfolding cnOk_def by blast
    from state_applyEffect [of c "respond w msg" ?p1]
    show ?thesis
    proof
      assume "connectionState (applyEffect c (respond w msg) ?p1) = connectionState ?p1"
      then show ?thesis using wm s1 by (simp add: frame_runMicrotasks)
    next
      assume "\<exists>r k v. respond w msg = Settle (ConnectAttempt r k) (Resolve v) \<and> \<not> controllers ?p1 ! k \<and>
        connectionState (applyEffect c (respond w msg) ?p1) = Connected c k"
      then obtain r k v where r: "respond w msg = Settle (ConnectAttempt r k) (Resolve v)"
        and nk: "\<not> controllers ?p0 ! k"
        and st: "connectionState (applyEffect c (respond w msg) ?p1) = Connected c k" by auto
      have w: "w = ConnectAttempt r k" and m: "msg = WorkerCallSuccess ?j v"
        using r by (cases msg; simp)+
      have f: "?j = 1" "r = k" "connectionState ?p0 = Connecting r k" "Suc c = length (connections ?p0)"
        using o w nk by simp_all
      have "msg = WorkerCallSuccess 1 v" using m f by simp
      moreover have "connectionState p = Connecting k k" using f by (simp add: frame_runMicrotasks)
      moreover have "Suc c = length (connections p)" using f by (simp add: frame_runMicrotasks)
      moreover have "connectionState (workerMessage c msg p) = Connected c k"
        using wm st by (simp add: frame_runMicrotasks)
      ultimately show ?thesis using True by blast
    qed
  qed
qed

lemma alive_workerMessage:
  "proxyOk p \<Longrightarrow> alive (connectionState (workerMessage c msg p)) = alive (connectionState p)"
  using state_workerMessage [of p c msg] by auto

lemma ident_tryConnect: "ident (snd (tryConnect p)) = ident p"
  by (cases "connectionState p")
     (simp_all add: ident_def tryConnect_def makeBlockedState_def connect_def settleShared_def)

lemma ident_ready: "ident (ready p) = ident p"
  using ident_tryConnect [of "p\<lparr>connectionState := Ready r k\<rparr>" for r k]
  by (cases "connectionState p") (simp_all add: ready_def makeBlockedState_def ident_def)

lemma ident_disconnect: "ident (disconnect p) = ident p"
  by (cases "connectionState p") (simp_all add: disconnect_def ident_def)

lemma ident_invoke: "ident (snd (invoke m a p)) = ident p"
  using ident_tryConnect [of "p\<lparr>results := results p @ [Pending]\<rparr>"]
  by (auto simp: invoke_def ident_def split: prod.splits sum.splits promise.splits)

lemma ident_callMethod: "ident (snd (callMethod m a p)) = ident p"
proof -
  obtain f q where g: "getMethod m p = (f, q)" by (cases "getMethod m p")
  have "ident q = ident p" using g by (auto simp: getMethod_def ident_def split: option.splits)
  then show ?thesis using ident_invoke [of "closures q ! f" a q] by (simp add: callMethod_def g)
qed

lemma ident_resume: "ident (resume t p) = ident p"
  by (cases "(t, p)" rule: resume.cases) (simp_all add: settleResult_def ident_def)

lemma ident_resumes: "ident (foldl (\<lambda>q t. resume t q) p ts) = ident p"
  by (induction ts arbitrary: p) (simp_all add: ident_resume)

lemma ident_runMicrotasks: "ident (runMicrotasks p) = ident p"
  using ident_resumes [of "p\<lparr>microtasks := []\<rparr>" "microtasks p"]
  by (simp add: runMicrotasks_def ident_def)

lemma ident_applyEffect: "ident (applyEffect c eff p) = ident p"
proof (cases eff)
  case (Warn w)
  then show ?thesis by (simp add: ident_def)
next
  case (Settle w out)
  then show ?thesis
    by (cases w; cases out) (simp_all add: settleResult_def settleShared_def ident_def)
qed

lemma ident_applyEffects: "ident (foldl (\<lambda>q e. applyEffect c e q) p effs) = ident p"
  by (induction effs arbitrary: p) (simp_all add: ident_applyEffect)

lemma ident_workerMessage: "ident (workerMessage c msg p) = ident p"
proof (cases "c < length (connections p) \<and> listening (connections p ! c)")
  case False
  show ?thesis using workerMessage_skip [OF False] by simp
next
  case True
  obtain conn effs where o: "onMessage (connections (runMicrotasks p) ! c) msg = (conn, effs)"
    by (cases "onMessage (connections (runMicrotasks p) ! c) msg")
  have "ident ((runMicrotasks p)\<lparr>connections := (connections (runMicrotasks p))[c := conn]\<rparr>) = ident p"
    using ident_runMicrotasks [of p] by (simp add: ident_def)
  then show ?thesis using True o
    by (simp add: workerMessage_def ident_runMicrotasks ident_applyEffects)
qed

lemma ident_workerError: "ident (workerError c e p) = ident p"
proof (cases "c < length (connections p) \<and> listening (connections p ! c)")
  case False
  show ?thesis using workerError_skip [OF False] by simp
next
  case True
  obtain conn effs where o: "onError (connections (runMicrotasks p) ! c) e = (conn, effs)"
    by (cases "onError (connections (runMicrotasks p) ! c) e")
  have "ident ((runMicrotasks p)\<lparr>connections := (connections (runMicrotasks p))[c := conn]\<rparr>) = ident p"
    using ident_runMicrotasks [of p] by (simp add: ident_def)
  then show ?thesis using True o
    by (simp add: workerError_def ident_runMicrotasks ident_applyEffects)
qed

lemma hinv_init: "handleOk a (refCountedWorker a)"
  by (simp add: handleOk_def refCountedWorker_def)

lemma hinv_SomeI:
  "workerArguments w = a \<Longrightarrow> inst w = Some i \<Longrightarrow> proxyOk i \<Longrightarrow> ident i = (0, a) \<Longrightarrow> created w = 1 \<Longrightarrow>
   (0 < refCount w \<longleftrightarrow> alive (connectionState i)) \<Longrightarrow> handleOk a w"
  by (simp add: handleOk_def)

lemma hinv_SomeD:
  assumes "handleOk a w" "inst w = Some i"
  shows "workerArguments w = a" "proxyOk i" "ident i = (0, a)" "created w = 1"
    "0 < refCount w \<longleftrightarrow> alive (connectionState i)"
  using assms by (simp_all add: handleOk_def)

lemma hinv_ensure:
  assumes h: "handleOk a w"
  shows "handleOk a (snd (ensureInstance w)) \<and> inst (snd (ensureInstance w)) = Some (fst (ensureInstance w)) \<and>
         refCount (snd (ensureInstance w)) = refCount w"
proof (cases "inst w")
  case None
  have "ident (newLazyWorkerProxy a 0) = (0, a)" by (simp add: ident_def newLazyWorkerProxy_def)
  moreover have "connectionState (newLazyWorkerProxy a 0) = Disconnected"
    by (simp add: newLazyWorkerProxy_def)
  ultimately show ?thesis using h None inv_new [of a 0]
    by (simp add: ensureInstance_def handleOk_def)
next
  case (Some i)
  then show ?thesis using h by (simp add: ensureInstance_def)
qed

lemma hinv_getProxy: "handleOk a w \<Longrightarrow> handleOk a (snd (getProxy w))"
  using hinv_ensure [of a w] by (simp add: getProxy_def split_def)

lemma hinv_acquire: assumes h: "handleOk a w" shows "handleOk a (snd (acquire w))"
proof -
  obtain i w' where e: "ensureInstance w = (i, w')" by (cases "ensureInstance w")
  have h': "handleOk a w'" and s: "inst w' = Some i" and rc: "refCount w' = refCount w"
    using hinv_ensure [OF h] e by simp_all
  note d = hinv_SomeD [OF h' s]
  let ?i = "if refCount w' + 1 > 0 then ready i else i"
  let ?w = "w'\<lparr>refCount := refCount w' + 1, inst := Some ?i\<rparr>"
  have "handleOk a ?w"
  proof (rule hinv_SomeI [where i = ?i])
    show "workerArguments ?w = a" using d by simp
    show "inst ?w = Some ?i" by simp
    show "proxyOk ?i" using d inv_ready by simp
    show "ident ?i = (0, a)" using d by (simp add: ident_ready)
    show "created ?w = 1" using d by simp
    show "0 < refCount ?w \<longleftrightarrow> alive (connectionState ?i)"
    proof (cases "refCount w' + 1 > 0")
      case True
      then show ?thesis by (simp add: alive_ready)
    next
      case False
      then have "\<not> alive (connectionState i)" using d by auto
      then show ?thesis using False by simp
    qed
  qed
  then show ?thesis by (simp add: acquire_def e)
qed

lemma hinv_release: assumes h: "handleOk a w" shows "handleOk a (release w)"
proof (cases "inst w")
  case None
  then show ?thesis using h by (simp add: release_def)
next
  case (Some i)
  note d = hinv_SomeD [OF h Some]
  let ?i = "if refCount w - 1 \<le> 0 then disconnect i else i"
  let ?w = "w\<lparr>refCount := refCount w - 1, inst := Some ?i\<rparr>"
  have "handleOk a ?w"
  proof (rule hinv_SomeI [where i = ?i])
    show "workerArguments ?w = a" using d by simp
    show "inst ?w = Some ?i" by simp
    show "proxyOk ?i" using d inv_disconnect by simp
    show "ident ?i = (0, a)" using d by (simp add: ident_disconnect)
    show "created ?w = 1" using d by simp
    show "0 < refCount ?w \<longleftrightarrow> alive (connectionState ?i)"
    proof (cases "refCount w - 1 \<le> 0")
      case True
      then show ?thesis by (simp add: state_disconnect)
    next
      case False
      then have "alive (connectionState i)" using d by auto
      then show ?thesis using False by simp
    qed
  qed
  then show ?thesis by (simp add: release_def Some)
qed

lemma hinv_onInstance:
  assumes h: "handleOk a w"
    and f: "\<And>i. proxyOk i \<Longrightarrow> proxyOk (f i) \<and> ident (f i) = ident i \<and>
                 alive (connectionState (f i)) = alive (connectionState i)"
  shows "handleOk a (onInstance f w)"
proof (cases "inst w")
  case None
  then show ?thesis using h by (simp add: onInstance_def)
next
  case (Some i)
  note d = hinv_SomeD [OF h Some]
  have "handleOk a (w\<lparr>inst := Some (f i)\<rparr>)"
    using d f [OF d(2)] by (intro hinv_SomeI [where i = "f i"]) simp_all
  then show ?thesis by (simp add: onInstance_def Some)
qed

lemma hinv_step: assumes h: "handleOk a w" shows "handleOk a (step w e)"
proof (cases e)
  case GetProxy
  then show ?thesis using hinv_getProxy [OF h] by simp
next
  case Acquire
  then show ?thesis using hinv_acquire [OF h] by simp
next
  case Release
  then show ?thesis using hinv_release [OF h] by simp
next
  case (Call m args)
  have "handleOk a (onInstance (\<lambda>i. snd (callMethod m args i)) w)"
    by (rule hinv_onInstance [OF h]) (simp add: inv_callMethod ident_callMethod alive_callMethod)
  then show ?thesis using Call by simp
next
  case Tick
  have "handleOk a (onInstance runMicrotasks w)"
    by (rule hinv_onInstance [OF h]) (simp add: inv_runMicrotasks ident_runMicrotasks frame_runMicrotasks)
  then show ?thesis using Tick by simp
next
  case (Message c msg)
  have "handleOk a (onInstance (workerMessage c msg) w)"
    by (rule hinv_onInstance [OF h]) (simp add: inv_workerMessage ident_workerMessage alive_workerMessage)
  then show ?thesis using Message by simp
next
  case (Fault c x)
  have "handleOk a (onInstance (workerError c x) w)"
    by (rule hinv_onInstance [OF h]) (simp add: inv_workerError ident_workerError state_workerError)
  then show ?thesis using Fault by simp
qed

lemma hinv_run: "handleOk a w \<Longrightarrow> handleOk a (run w es)"
  unfolding run_def by (induction es arbitrary: w) (simp_all add: hinv_step)

lemma hinv_reach: "handleOk a (run (refCountedWorker a) es)"
  by (rule hinv_run [OF hinv_init])

section \<open>The callee side: claims\<close>

lemma serve_unset:
  "\<forall>m \<in> set ms. \<exists>c. m = IsCall c \<and> (call_method c = ''constructor'' \<longrightarrow> (\<exists>err. factory (args c) = Inl err))
   \<Longrightarrow> fst (serve factory dispatch None ms) = None \<and>
       list_all2 isErrorFor ms (snd (serve factory dispatch None ms))"
proof (induction ms)
  case Nil
  then show ?case by simp
next
  case (Cons m ms)
  then obtain c where c: "m = IsCall c"
    and f: "call_method c = ''constructor'' \<longrightarrow> (\<exists>err. factory (args c) = Inl err)"
    by auto
  have step: "\<exists>err. connectWorker_onmessage factory dispatch None m
      = (None, Some (WorkerCallError (call_id c) err))"
    using c f by (cases "call_method c = ''constructor''") auto
  then obtain err where e: "connectWorker_onmessage factory dispatch None m
      = (None, Some (WorkerCallError (call_id c) err))" ..
  from Cons have rest: "fst (serve factory dispatch None ms) = None \<and>
       list_all2 isErrorFor ms (snd (serve factory dispatch None ms))"
    by simp
  show ?case using e rest c by (simp add: split_def)
qed

text \<open>
  C8. While no \<open>'constructor'\<close> call has succeeded (every call so far either has
  another method name or is a \<open>'constructor'\<close> call whose class constructor threw),
  the worker answers each call envelope with an error envelope carrying that call's
  id, and stays uninitialized. A \<open>'constructor'\<close> call that follows is given to the
  class constructor with the envelope's \<open>args\<close>: the object it returns becomes the
  handler and the answer is a success envelope with that id. And a success answer
  from an uninitialized worker is always the answer to a \<open>'constructor'\<close> call.
\<close>

theorem connectWorker_requires_constructor:
  assumes "\<forall>m \<in> set ms. \<exists>c. m = IsCall c \<and>
             (call_method c = ''constructor'' \<longrightarrow> (\<exists>err. factory (args c) = Inl err))"
  shows "fst (serve factory dispatch None ms) = None \<and>
         list_all2 isErrorFor ms (snd (serve factory dispatch None ms)) \<and>
         (call_method c = ''constructor'' \<and> factory (args c) = Inr h \<longrightarrow>
            connectWorker_onmessage factory dispatch (fst (serve factory dispatch None ms)) (IsCall c)
              = (Some h, Some (WorkerCallSuccess (call_id c) Undefined))) \<and>
         (connectWorker_onmessage factory dispatch None (IsCall c) = (h', Some (WorkerCallSuccess i v))
            \<longrightarrow> call_method c = ''constructor'' \<and> i = call_id c \<and> factory (args c) = Inr (the h'))"
proof -
  have n: "fst (serve factory dispatch None ms) = None"
    using serve_unset [OF assms] by simp
  have e: "list_all2 isErrorFor ms (snd (serve factory dispatch None ms))"
    using serve_unset [OF assms] by simp
  have a: "call_method c = ''constructor'' \<and> factory (args c) = Inr h \<longrightarrow>
         connectWorker_onmessage factory dispatch (fst (serve factory dispatch None ms)) (IsCall c)
           = (Some h, Some (WorkerCallSuccess (call_id c) Undefined))"
    by (simp add: n)
  have b: "connectWorker_onmessage factory dispatch None (IsCall c) = (h', Some (WorkerCallSuccess i v))
         \<longrightarrow> call_method c = ''constructor'' \<and> i = call_id c \<and> factory (args c) = Inr (the h')"
    by (auto split: if_splits sum.splits)
  show ?thesis using n e a b by blast
qed

theorem connectWorker_requires_constructor_witness:
  "serve (\<lambda>a. Inr a) (\<lambda>h m a. (Inr (Arr (h @ a)), h)) None
     [IsCall \<lparr>call_id = 1, call_method = ''add'', args = [Num 1, Num 2]\<rparr>,
      IsCall \<lparr>call_id = 2, call_method = ''push'', args = [Str ''x'']\<rparr>]
   = (None, [Some (WorkerCallError 1 notInitialized), Some (WorkerCallError 2 notInitialized)]) \<and>
   connectWorker_onmessage (\<lambda>a. Inr a) (\<lambda>h m a. (Inr (Arr (h @ a)), h)) None
     (IsCall \<lparr>call_id = 3, call_method = ''constructor'', args = [Num 7]\<rparr>)
   = (Some [Num 7], Some (WorkerCallSuccess 3 Undefined))"
  using connectWorker_requires_constructor
    [of "[IsCall \<lparr>call_id = 1, call_method = ''add'', args = [Num 1, Num 2]\<rparr>,
          IsCall \<lparr>call_id = 2, call_method = ''push'', args = [Str ''x'']\<rparr>]"
        "\<lambda>a. Inr a" "\<lambda>h m a. (Inr (Arr (h @ a)), h)"
        "\<lparr>call_id = 3, call_method = ''constructor'', args = [Num 7]\<rparr>" "[Num 7]"]
  by simp

lemmas exec_defs =
  run_def refCountedWorker_def getState_def getProxy_def acquire_def release_def ensureInstance_def
  onInstance_def callMethod_def getMethod_def invoke_def tryConnect_def makeBlockedState_def
  connect_def ready_def disconnect_def workerMessage_def workerError_def runMicrotasks_def
  settleShared_def settleResult_def newLazyWorkerProxy_def newWorkerConnection_def call_def
  onMessage_def onError_def dispose_def resultOf_def

section \<open>The handle\<close>

lemma getProxy_reach:
  assumes h: "handleOk a w"
  shows "fst (getProxy w) = 0 \<and> fst (acquire w) = 0 \<and> created (snd (acquire w)) = 1"
proof -
  obtain i w' where e: "ensureInstance w = (i, w')" by (cases "ensureInstance w")
  have h': "handleOk a w'" and s: "inst w' = Some i"
    using hinv_ensure [OF h] e by simp_all
  have "proxy i = 0" "created w' = 1" using hinv_SomeD [OF h' s] by (simp_all add: ident_def)
  then show ?thesis by (simp add: getProxy_def acquire_def e)
qed

text \<open>
  C10. Whatever has happened to a handle since \<open>refCountedWorker\<close> made it (any
  sequence of calls and worker events, disconnections and reconnections included),
  \<open>getProxy()\<close> and \<open>acquire()\<close> return the same object, the \<open>Proxy\<close> of the first
  \<open>LazyWorkerProxy\<close>, and that instance is the only one ever created.
\<close>

theorem proxy_is_one_stable_object:
  "fst (getProxy (run (refCountedWorker a) es)) = 0 \<and>
   fst (acquire (run (refCountedWorker a) es)) = 0 \<and>
   fst (getProxy (run (refCountedWorker a) es)) = fst (acquire (run (refCountedWorker a) es')) \<and>
   created (snd (acquire (run (refCountedWorker a) es))) = 1"
  using getProxy_reach [OF hinv_reach, of a es] getProxy_reach [OF hinv_reach, of a es']
  by simp

section \<open>The forwarding closures\<close>

text \<open>
  C9 (the code does not do this). In every reachable state the table \<open>methods\<close> is
  empty, so each access of a method name makes a new closure: two accesses of the
  same name, one after the other, return different closures.
\<close>

theorem getMethod_makes_new_closure_each_time:
  "inst (run (refCountedWorker a) es) = Some i \<longrightarrow>
     methods i = [] \<and>
     fst (getMethod m (snd (getMethod m i))) \<noteq> fst (getMethod m i) \<and>
     closures (snd (getMethod m (snd (getMethod m i)))) = closures i @ [m, m]"
proof
  assume s: "inst (run (refCountedWorker a) es) = Some i"
  have "methods i = []" using hinv_SomeD(2) [OF hinv_reach s] by (rule inv_me)
  then show "methods i = [] \<and>
     fst (getMethod m (snd (getMethod m i))) \<noteq> fst (getMethod m i) \<and>
     closures (snd (getMethod m (snd (getMethod m i)))) = closures i @ [m, m]"
    by (simp add: getMethod_def)
qed

theorem getMethod_makes_new_closure_each_time_witness:
  "inst (run (refCountedWorker [Num 1]) [GetProxy]) = Some (newLazyWorkerProxy [Num 1] 0) \<and>
   fst (getMethod ''add'' (newLazyWorkerProxy [Num 1] 0)) = 0 \<and>
   fst (getMethod ''add'' (snd (getMethod ''add'' (newLazyWorkerProxy [Num 1] 0)))) = 1"
  using getMethod_makes_new_closure_each_time
    [of "[Num 1]" "[GetProxy]" "newLazyWorkerProxy [Num 1] 0" "''add''"]
  by (simp add: exec_defs)

section \<open>The channel\<close>

lemma delete_filter: "AList.delete k al = filter (\<lambda>en. fst en \<noteq> k) al"
  by (induction al) auto

text \<open>
  C5. A fault of the worker rejects every pending entry with the fault, in the order
  the calls were made, and empties the table. An error envelope whose id is pending
  rejects that entry alone with the envelope's error and removes it; the entries with
  other ids stay as they are.
\<close>

theorem fault_rejects_all_error_rejects_one:
  "requests (fst (onError conn e)) = [] \<and>
   snd (onError conn e) = map (\<lambda>en. Settle (snd en) (Reject (ErrorEvent e))) (requests conn) \<and>
   (map_of (requests conn) i = Some request \<longrightarrow>
      snd (onMessage conn (WorkerCallError i err)) = [Settle request (Reject (ErrorValue err))] \<and>
      requests (fst (onMessage conn (WorkerCallError i err))) = filter (\<lambda>en. fst en \<noteq> i) (requests conn))"
  by (simp add: onError_def onMessage_def delete_filter)

theorem fault_rejects_all_error_rejects_one_witness:
  "map_of (requests (call (call newWorkerConnection (10::nat) ''add'' [] None) 11 ''push'' [] None)) 2 = Some 11 \<and>
   onError (call (call newWorkerConnection (10::nat) ''add'' [] None) 11 ''push'' [] None) (Str ''crash'')
     = ((call (call newWorkerConnection 10 ''add'' [] None) 11 ''push'' [] None)\<lparr>requests := []\<rparr>,
        [Settle 10 (Reject (ErrorEvent (Str ''crash''))), Settle 11 (Reject (ErrorEvent (Str ''crash'')))]) \<and>
   snd (onMessage (call (call newWorkerConnection (10::nat) ''add'' [] None) 11 ''push'' [] None)
          (WorkerCallError 2 (Str ''no''))) = [Settle 11 (Reject (ErrorValue (Str ''no'')))] \<and>
   requests (fst (onMessage (call (call newWorkerConnection (10::nat) ''add'' [] None) 11 ''push'' [] None)
          (WorkerCallError 2 (Str ''no'')))) = [(1, 10)]"
  using fault_rejects_all_error_rejects_one
    [of "call (call newWorkerConnection (10::nat) ''add'' [] None) 11 ''push'' [] None" "Str ''crash''" 2 11 "Str ''no''"]
  by (simp add: call_def newWorkerConnection_def onError_def)

text \<open>
  C6, as stated, fails: an envelope of unrecognized kind whose id is pending takes the
  entry out of the table (and settles nothing), and one whose id is not pending is not
  logged.
\<close>

theorem unrecognized_kind_counterexample:
  "onMessage (call newWorkerConnection (10::nat) ''add'' [] None) (Unrecognized ''progress'' 1)
     = ((call newWorkerConnection 10 ''add'' [] None)\<lparr>requests := []\<rparr>, [Warn (unexpectedType ''progress'')]) \<and>
   requests (call newWorkerConnection (10::nat) ''add'' [] None) = [(1, 10)] \<and>
   onMessage (call newWorkerConnection (10::nat) ''add'' [] None) (Unrecognized ''progress'' 7)
     = (call newWorkerConnection 10 ''add'' [] None, [])"
  by (simp add: call_def newWorkerConnection_def onMessage_def)

text \<open>
  C6, amended. An envelope of unrecognized kind resolves and rejects nothing: all it
  can do is log a warning, which it does exactly when its id is pending; the entries
  with other ids stay as they are. An envelope of any kind whose id is not pending
  changes nothing and has no effect at all.
\<close>

theorem unrecognized_kind_settles_nothing:
  "snd (onMessage conn (Unrecognized t i)) =
     (if i \<in> fst ` set (requests conn) then [Warn (unexpectedType t)] else []) \<and>
   filter (\<lambda>en. fst en \<noteq> i) (requests (fst (onMessage conn (Unrecognized t i))))
     = filter (\<lambda>en. fst en \<noteq> i) (requests conn) \<and>
   (map_of (requests conn) (message_id message) = None \<longrightarrow> onMessage conn message = (conn, []))"
proof -
  have "map_of (requests conn) i = None \<longleftrightarrow> i \<notin> fst ` set (requests conn)"
    by (simp add: map_of_eq_None_iff)
  then show ?thesis
    by (cases "map_of (requests conn) i") (auto simp: onMessage_def delete_filter)
qed

theorem unrecognized_kind_settles_nothing_witness:
  "map_of (requests (call newWorkerConnection (10::nat) ''add'' [] None)) (message_id (WorkerCallSuccess 7 (Num 3))) = None \<and>
   onMessage (call newWorkerConnection (10::nat) ''add'' [] None) (WorkerCallSuccess 7 (Num 3))
     = (call newWorkerConnection 10 ''add'' [] None, []) \<and>
   snd (onMessage (call newWorkerConnection (10::nat) ''add'' [] None) (Unrecognized ''progress'' 1))
     = [Warn (unexpectedType ''progress'')]"
  using unrecognized_kind_settles_nothing
    [of "call newWorkerConnection (10::nat) ''add'' [] None" "''progress''" 1 "WorkerCallSuccess 7 (Num 3)"]
  by (simp add: call_def newWorkerConnection_def)

section \<open>State and reference count\<close>

lemma getState_alive:
  assumes h: "handleOk a w"
  shows "getState w \<in> {''ready'', ''connecting'', ''connected''} \<longleftrightarrow> 0 < refCount w"
proof (cases "inst w")
  case None
  then show ?thesis using h by (simp add: getState_def handleOk_def)
next
  case (Some i)
  have "0 < refCount w \<longleftrightarrow> alive (connectionState i)" by (rule hinv_SomeD(5) [OF h Some])
  then show ?thesis using Some by (cases "connectionState i") (simp_all add: getState_def)
qed

lemma getState_idle:
  assumes h: "handleOk a w"
  shows "getState w \<in> {''disconnected'', ''blocked''} \<longleftrightarrow> refCount w \<le> 0"
proof (cases "inst w")
  case None
  then show ?thesis using h by (simp add: getState_def handleOk_def)
next
  case (Some i)
  have "0 < refCount w \<longleftrightarrow> alive (connectionState i)" by (rule hinv_SomeD(5) [OF h Some])
  then show ?thesis using Some by (cases "connectionState i") (auto simp: getState_def)
qed

lemma getState_connected:
  assumes h: "handleOk a w"
  shows "getState w = ''connected'' \<longleftrightarrow> constructed w"
proof (cases "inst w")
  case None
  then show ?thesis by (simp add: getState_def constructed_def)
next
  case (Some i)
  have i: "proxyOk i" by (rule hinv_SomeD(2) [OF h Some])
  have l: "length (shared i) = length (controllers i)" by (rule inv_len [OF i])
  show ?thesis
  proof
    assume "getState w = ''connected''"
    then obtain c k where st: "connectionState i = Connected c k"
      using Some by (cases "connectionState i") (simp_all add: getState_def)
    have "k < length (shared i)" "\<not> controllers i ! k" "shared i ! k = Fulfilled (c, k)"
      using inv_st [OF i] st l by simp_all
    then have "\<exists>r \<in> set [0..<length (shared i)].
        case shared i ! r of Fulfilled (c, k) \<Rightarrow> \<not> controllers i ! k | _ \<Rightarrow> False"
      by (intro bexI [where x = k]) simp_all
    then show "constructed w" using Some by (simp add: constructed_def list_ex_iff)
  next
    assume "constructed w"
    then obtain r where r: "r < length (shared i)"
      and f: "case shared i ! r of Fulfilled (c, k) \<Rightarrow> \<not> controllers i ! k | _ \<Rightarrow> False"
      using Some by (auto simp: constructed_def list_ex_iff)
    then obtain c k where ck: "shared i ! r = Fulfilled (c, k)" and nk: "\<not> controllers i ! k"
      by (cases "shared i ! r") auto
    have "connectionState i = Connected c k"
      using inv_sh [OF i] r ck nk unfolding shOk_def by blast
    then show "getState w = ''connected''" using Some by (simp add: getState_def)
  qed
qed

lemma refCount_ensure: "refCount (snd (ensureInstance w)) = refCount w"
  by (simp add: ensureInstance_def split: option.splits)

lemma inst_ensure: "inst (snd (ensureInstance w)) \<noteq> None"
  by (simp add: ensureInstance_def split: option.splits)

lemma refCount_other: "e \<noteq> Acquire \<Longrightarrow> e \<noteq> Release \<Longrightarrow> refCount (step w e) = refCount w"
  by (cases e) (simp_all add: getProxy_def split_def refCount_ensure onInstance_def split: option.splits)

lemma refCount_others:
  "\<forall>e \<in> set es. e \<noteq> Acquire \<and> e \<noteq> Release \<Longrightarrow> refCount (run w es) = refCount w"
  unfolding run_def by (induction es arbitrary: w) (simp_all add: refCount_other)

lemma refCount_Acquire: "refCount (step w Acquire) = refCount w + 1"
  using refCount_ensure [of w] by (simp add: acquire_def split_def)

lemma inst_Acquire: "inst (step w Acquire) \<noteq> None"
  by (simp add: acquire_def split_def)

lemma inst_step: "inst w \<noteq> None \<Longrightarrow> inst (step w e) \<noteq> None"
  by (cases e)
     (auto simp: getProxy_def acquire_def release_def ensureInstance_def onInstance_def split_def
           split: option.splits)

lemma inst_run: "inst w \<noteq> None \<Longrightarrow> inst (run w es) \<noteq> None"
proof (induction es arbitrary: w)
  case Nil
  then show ?case by (simp add: run_def)
next
  case (Cons e es)
  have "inst (run (step w e) es) \<noteq> None" by (rule Cons.IH [OF inst_step [OF Cons.prems]])
  then show ?case by (simp add: run_def)
qed

lemma refCount_Release: "inst w \<noteq> None \<Longrightarrow> refCount (step w Release) = refCount w - 1"
  by (auto simp: release_def)

lemma run_append: "run w (es @ es') = run (run w es) es'"
  by (simp add: run_def)

lemma run_Cons: "run w (e # es) = run (step w e) es"
  by (simp add: run_def)

lemma run_Nil: "run w [] = w"
  by (simp add: run_def)

lemma getState_release:
  "inst w \<noteq> None \<Longrightarrow> refCount w - 1 \<le> 0 \<Longrightarrow> getState (step w Release) = ''disconnected''"
  by (auto simp: release_def getState_def state_disconnect)

text \<open>
  C2, as stated, fails: after \<open>getProxy()\<close> and one method call the count is zero and
  the state is \<open>'blocked'\<close>, not \<open>'disconnected'\<close>.
\<close>

theorem zero_count_blocked_counterexample:
  "refCount (run (refCountedWorker [Obj [(''precision'', Num 1)]]) [GetProxy, Call ''add'' [Num 1, Num 2]]) = 0 \<and>
   getState (run (refCountedWorker [Obj [(''precision'', Num 1)]]) [GetProxy, Call ''add'' [Num 1, Num 2]]) = ''blocked''"
  by (simp add: exec_defs)

text \<open>
  C2, amended. After every finite sequence of \<open>getProxy\<close>, \<open>acquire\<close>, \<open>release\<close>,
  method calls and worker events: the state is \<open>'ready'\<close>, \<open>'connecting'\<close> or
  \<open>'connected'\<close> exactly when the count is positive, and \<open>'disconnected'\<close> or
  \<open>'blocked'\<close> exactly when it is zero or below; it is \<open>'connected'\<close> exactly when the
  count is positive and construction has completed. And from a count of zero, acquire,
  acquire, release, with any other events in between and after, leaves the state
  \<open>'ready'\<close>, \<open>'connecting'\<close> or \<open>'connected'\<close>; the second release makes it
  \<open>'disconnected'\<close>.
\<close>

theorem state_follows_refCount:
  "(0 < refCount (run (refCountedWorker a) es) \<longleftrightarrow>
      getState (run (refCountedWorker a) es) \<in> {''ready'', ''connecting'', ''connected''}) \<and>
   (refCount (run (refCountedWorker a) es) \<le> 0 \<longleftrightarrow>
      getState (run (refCountedWorker a) es) \<in> {''disconnected'', ''blocked''}) \<and>
   (getState (run (refCountedWorker a) es) = ''connected'' \<longleftrightarrow>
      0 < refCount (run (refCountedWorker a) es) \<and> constructed (run (refCountedWorker a) es)) \<and>
   ((\<forall>e \<in> set (es1 @ es2 @ es3). e \<noteq> Acquire \<and> e \<noteq> Release) \<and>
    refCount (run (refCountedWorker a) es) = 0 \<longrightarrow>
      getState (run (refCountedWorker a) (es @ Acquire # es1 @ Acquire # es2 @ Release # es3))
        \<in> {''ready'', ''connecting'', ''connected''} \<and>
      getState (run (refCountedWorker a) (es @ Acquire # es1 @ Acquire # es2 @ Release # es3 @ [Release]))
        = ''disconnected'')"
proof -
  let ?w = "run (refCountedWorker a) es"
  have h: "handleOk a ?w" by (rule hinv_reach)
  have a: "0 < refCount ?w \<longleftrightarrow> getState ?w \<in> {''ready'', ''connecting'', ''connected''}"
    using getState_alive [OF h] by simp
  have b: "refCount ?w \<le> 0 \<longleftrightarrow> getState ?w \<in> {''disconnected'', ''blocked''}"
    using getState_idle [OF h] by simp
  have c: "getState ?w = ''connected'' \<longleftrightarrow> 0 < refCount ?w \<and> constructed ?w"
    using getState_connected [OF h] a by auto
  have d: "getState (run (refCountedWorker a) (es @ Acquire # es1 @ Acquire # es2 @ Release # es3))
        \<in> {''ready'', ''connecting'', ''connected''} \<and>
      getState (run (refCountedWorker a) (es @ Acquire # es1 @ Acquire # es2 @ Release # es3 @ [Release]))
        = ''disconnected''"
    if n: "\<forall>e \<in> set (es1 @ es2 @ es3). e \<noteq> Acquire \<and> e \<noteq> Release" and z: "refCount ?w = 0"
  proof -
    let ?w1 = "run (step ?w Acquire) es1"
    let ?w2 = "run (step ?w1 Acquire) es2"
    let ?w3 = "run (step ?w2 Release) es3"
    have n1: "\<forall>e \<in> set es1. e \<noteq> Acquire \<and> e \<noteq> Release"
      and n2: "\<forall>e \<in> set es2. e \<noteq> Acquire \<and> e \<noteq> Release"
      and n3: "\<forall>e \<in> set es3. e \<noteq> Acquire \<and> e \<noteq> Release" using n by auto
    have r1: "refCount ?w1 = 1"
      unfolding refCount_others [OF n1] refCount_Acquire using z by simp
    have i1: "inst ?w1 \<noteq> None" by (rule inst_run [OF inst_Acquire])
    have r2: "refCount ?w2 = 2"
      unfolding refCount_others [OF n2] refCount_Acquire using r1 by simp
    have i2: "inst ?w2 \<noteq> None" by (rule inst_run [OF inst_Acquire])
    have r3: "refCount ?w3 = 1"
      unfolding refCount_others [OF n3] refCount_Release [OF i2] using r2 by simp
    have i3: "inst ?w3 \<noteq> None" by (rule inst_run [OF inst_step [OF i2]])
    have e3: "run (refCountedWorker a) (es @ Acquire # es1 @ Acquire # es2 @ Release # es3) = ?w3"
      by (simp only: run_append run_Cons)
    have e4: "run (refCountedWorker a) (es @ Acquire # es1 @ Acquire # es2 @ Release # es3 @ [Release])
        = step ?w3 Release"
      by (simp only: run_append run_Cons run_Nil)
    have h3: "handleOk a ?w3" unfolding e3 [symmetric] by (rule hinv_reach)
    have "getState ?w3 \<in> {''ready'', ''connecting'', ''connected''}"
      using getState_alive [OF h3] r3 by simp
    moreover have "getState (step ?w3 Release) = ''disconnected''"
      using getState_release [OF i3] r3 by simp
    ultimately show ?thesis unfolding e3 e4 by simp
  qed
  show ?thesis using a b c d by blast
qed

theorem state_follows_refCount_witness:
  "Acquire \<notin> set ([Call ''add'' [Num 1, Num 2]] @ [Message 0 (WorkerCallSuccess 1 Undefined)] @ [Tick]) \<and>
   Release \<notin> set ([Call ''add'' [Num 1, Num 2]] @ [Message 0 (WorkerCallSuccess 1 Undefined)] @ [Tick]) \<and>
   refCount (run (refCountedWorker [Num 1]) [GetProxy]) = 0 \<and>
   getState (run (refCountedWorker [Num 1])
     ([GetProxy] @ Acquire # [Call ''add'' [Num 1, Num 2]] @ Acquire #
        [Message 0 (WorkerCallSuccess 1 Undefined)] @ Release # [Tick])) = ''connected'' \<and>
   getState (run (refCountedWorker [Num 1])
     ([GetProxy] @ Acquire # [Call ''add'' [Num 1, Num 2]] @ Acquire #
        [Message 0 (WorkerCallSuccess 1 Undefined)] @ Release # [Tick] @ [Release])) = ''disconnected''"
  using state_follows_refCount
    [of "[Num 1]" "[GetProxy]" "[Call ''add'' [Num 1, Num 2]]"
        "[Message 0 (WorkerCallSuccess 1 Undefined)]" "[Tick]"]
  by (simp add: exec_defs)

section \<open>The first envelope of every channel\<close>

lemma list_all_update:
  "list_all P xs \<Longrightarrow> (c < length xs \<Longrightarrow> P x) \<Longrightarrow> list_all P (xs[c := x])"
  by (cases "c < length xs")
     (auto simp: list_all_iff list_update_beyond dest: set_update_subset_insert [THEN subsetD])

lemma postedOk_cong:
  "connections q = connections p \<Longrightarrow> constructorArgs q = constructorArgs p \<Longrightarrow> postedOk q = postedOk p"
  by (simp add: postedOk_def)

lemma postedOk_update:
  assumes "postedOk p"
    and "c < length (connections p) \<Longrightarrow>
           posted conn \<noteq> [] \<and> hd (posted conn) = constructorCall (constructorArgs p)"
  shows "postedOk (p\<lparr>connections := (connections p)[c := conn]\<rparr>)"
  using assms list_all_update [of _ "connections p" c conn] by (simp add: postedOk_def)

lemma postedOk_nth:
  "postedOk p \<Longrightarrow> c < length (connections p) \<Longrightarrow>
   posted (connections p ! c) \<noteq> [] \<and> hd (posted (connections p ! c)) = constructorCall (constructorArgs p)"
  by (simp add: postedOk_def list_all_length)

lemma postedOk_settleShared: "postedOk (settleShared r v p) = postedOk p"
  by (rule postedOk_cong) (simp_all add: settleShared_def)

lemma postedOk_settleResult: "postedOk (settleResult P v p) = postedOk p"
  by (rule postedOk_cong) (simp_all add: settleResult_def)

lemma postedOk_connect: "postedOk p \<Longrightarrow> postedOk (connect r k p)"
  by (simp add: connect_def postedOk_settleShared)
     (simp add: postedOk_def call_def newWorkerConnection_def constructorCall_def)

lemma args_connect: "constructorArgs (connect r k p) = constructorArgs p"
  by (simp add: connect_def settleShared_def)

lemma postedOk_tryConnect: assumes "postedOk p" shows "postedOk (snd (tryConnect p))"
proof (cases "connectionState p")
  case Disconnected
  have "postedOk (p\<lparr>shared := shared p @ [Pending], controllers := controllers p @ [False],
      connectionState := Blocked (length (shared p)) (length (controllers p))\<rparr>) = postedOk p"
    by (rule postedOk_cong) simp_all
  then show ?thesis using assms Disconnected by (simp add: tryConnect_def makeBlockedState_def)
next
  case (Ready r k)
  have "postedOk ((connect r k p)\<lparr>connectionState := Connecting r k\<rparr>) = postedOk (connect r k p)"
    by (rule postedOk_cong) simp_all
  then show ?thesis using postedOk_connect [OF assms] Ready by (simp add: tryConnect_def)
qed (use assms in \<open>simp_all add: tryConnect_def\<close>)

lemma postedOk_ready: assumes "postedOk p" shows "postedOk (ready p)"
proof (cases "connectionState p")
  case Disconnected
  have "postedOk (p\<lparr>shared := shared p @ [Pending], controllers := controllers p @ [False],
      connectionState := Ready (length (shared p)) (length (controllers p))\<rparr>) = postedOk p"
    by (rule postedOk_cong) simp_all
  then show ?thesis using assms Disconnected by (simp add: ready_def makeBlockedState_def)
next
  case (Blocked r k)
  have "postedOk (p\<lparr>connectionState := Ready r k\<rparr>)"
    using assms postedOk_cong [of "p\<lparr>connectionState := Ready r k\<rparr>" p] by simp
  from postedOk_tryConnect [OF this] show ?thesis using Blocked by (simp add: ready_def)
qed (use assms in \<open>simp_all add: ready_def\<close>)

lemma postedOk_dispose:
  assumes "postedOk p"
  shows "postedOk (p\<lparr>connections := (connections p)[c := dispose (connections p ! c)]\<rparr>)"
  by (rule postedOk_update [OF assms]) (use postedOk_nth [OF assms] in \<open>simp add: dispose_def\<close>)

lemma postedOk_disconnect: assumes "postedOk p" shows "postedOk (disconnect p)"
proof (cases "connectionState p")
  case (Connected c k)
  have "postedOk (p\<lparr>connections := (connections p)[c := dispose (connections p ! c)]\<rparr>)"
    by (rule postedOk_dispose [OF assms])
  moreover have "postedOk (disconnect p) =
      postedOk (p\<lparr>connections := (connections p)[c := dispose (connections p ! c)]\<rparr>)"
    by (rule postedOk_cong) (simp_all add: disconnect_def Connected)
  ultimately show ?thesis by simp
next
  case Disconnected
  then show ?thesis using assms by (simp add: disconnect_def)
next
  case (Blocked r k)
  have "postedOk (disconnect p) = postedOk p"
    by (rule postedOk_cong) (simp_all add: disconnect_def Blocked)
  then show ?thesis using assms by simp
next
  case (Ready r k)
  have "postedOk (disconnect p) = postedOk p"
    by (rule postedOk_cong) (simp_all add: disconnect_def Ready)
  then show ?thesis using assms by simp
next
  case (Connecting r k)
  have "postedOk (disconnect p) = postedOk p"
    by (rule postedOk_cong) (simp_all add: disconnect_def Connecting)
  then show ?thesis using assms by simp
qed

lemma connections_invoke: "connections (snd (invoke m a p)) = connections (snd (tryConnect (p\<lparr>results := results p @ [Pending]\<rparr>)))"
  by (simp add: invoke_def split: prod.splits sum.splits promise.splits)

lemma postedOk_callMethod: assumes "postedOk p" shows "postedOk (snd (callMethod m a p))"
proof -
  obtain f q where g: "getMethod m p = (f, q)" by (cases "getMethod m p")
  have q: "connections q = connections p" "constructorArgs q = constructorArgs p"
    using g by (auto simp: getMethod_def split: option.splits)
  let ?q1 = "q\<lparr>results := results q @ [Pending]\<rparr>"
  have "postedOk ?q1" using assms postedOk_cong [of ?q1 p] q by simp
  then have t: "postedOk (snd (tryConnect ?q1))" by (rule postedOk_tryConnect)
  have "ident (snd (invoke (closures q ! f) a q)) = ident q" by (rule ident_invoke)
  moreover have "ident (snd (tryConnect ?q1)) = ident ?q1" by (rule ident_tryConnect)
  ultimately have "constructorArgs (snd (invoke (closures q ! f) a q)) = constructorArgs (snd (tryConnect ?q1))"
    by (simp add: ident_def)
  then have "postedOk (snd (invoke (closures q ! f) a q)) = postedOk (snd (tryConnect ?q1))"
    by (intro postedOk_cong) (simp_all add: connections_invoke)
  then show ?thesis using t by (simp add: callMethod_def g)
qed

lemma postedOk_resume: assumes "postedOk p" shows "postedOk (resume t p)"
proof (cases "(t, p)" rule: resume.cases)
  case (1 P m a c k q)
  have "postedOk (p\<lparr>connections := (connections p)[c := call (connections p ! c) (MethodResult P) m a (Some k)]\<rparr>)"
    by (rule postedOk_update [OF assms]) (use postedOk_nth [OF assms] in \<open>simp add: call_def\<close>)
  then show ?thesis using 1 by simp
next
  case (2 P m a err q)
  then show ?thesis using assms by (simp add: postedOk_settleResult)
next
  case (3 P m a q)
  then show ?thesis using assms by simp
qed

lemma postedOk_resumes: "postedOk p \<Longrightarrow> postedOk (foldl (\<lambda>q t. resume t q) p ts)"
  by (induction ts arbitrary: p) (simp_all add: postedOk_resume)

lemma postedOk_runMicrotasks: assumes "postedOk p" shows "postedOk (runMicrotasks p)"
proof -
  have "postedOk (p\<lparr>microtasks := []\<rparr>)"
    using assms postedOk_cong [of "p\<lparr>microtasks := []\<rparr>" p] by simp
  then show ?thesis unfolding runMicrotasks_def by (rule postedOk_resumes)
qed

lemma postedOk_applyEffect: assumes "postedOk p" shows "postedOk (applyEffect c eff p)"
proof (cases eff)
  case (Warn w)
  have "postedOk (p\<lparr>warnings := warnings p @ [w]\<rparr>) = postedOk p" by (rule postedOk_cong) simp_all
  then show ?thesis using assms Warn by simp
next
  case (Settle w out)
  show ?thesis
  proof (cases w)
    case (MethodResult P)
    then show ?thesis using assms Settle by (cases out) (simp_all add: postedOk_settleResult)
  next
    case (ConnectAttempt r k)
    show ?thesis
    proof (cases out)
      case (Reject err)
      then show ?thesis using assms Settle ConnectAttempt by (simp add: postedOk_settleShared)
    next
      case (Resolve v)
      have "postedOk (p\<lparr>connectionState := Connected c k\<rparr>)"
        using assms postedOk_cong [of "p\<lparr>connectionState := Connected c k\<rparr>" p] by simp
      then show ?thesis using postedOk_dispose [OF assms, of c] Settle ConnectAttempt Resolve
        by (simp add: postedOk_settleShared)
    qed
  qed
qed

lemma postedOk_applyEffects: "postedOk p \<Longrightarrow> postedOk (foldl (\<lambda>q e. applyEffect c e q) p effs)"
  by (induction effs arbitrary: p) (simp_all add: postedOk_applyEffect)

lemma postedOk_requests:
  assumes "postedOk p"
  shows "postedOk (p\<lparr>connections := (connections p)[c := (connections p ! c)\<lparr>requests := rs\<rparr>]\<rparr>)"
  by (rule postedOk_update [OF assms]) (use postedOk_nth [OF assms] in simp)

lemma postedOk_workerMessage: assumes "postedOk p" shows "postedOk (workerMessage c msg p)"
proof (cases "c < length (connections p) \<and> listening (connections p ! c)")
  case False
  show ?thesis using assms workerMessage_skip [OF False] by simp
next
  case True
  let ?p0 = "runMicrotasks p"
  have p0: "postedOk ?p0" by (rule postedOk_runMicrotasks [OF assms])
  show ?thesis
  proof (cases "map_of (requests (connections ?p0 ! c)) (message_id msg)")
    case None
    have "postedOk (runMicrotasks ?p0)" by (rule postedOk_runMicrotasks [OF p0])
    then show ?thesis using True None by (simp add: workerMessage_def onMessage_def)
  next
    case (Some w)
    have "postedOk (runMicrotasks (applyEffect c (respond w msg)
        (?p0\<lparr>connections := (connections ?p0)[c := (connections ?p0 ! c)
           \<lparr>requests := AList.delete (message_id msg) (requests (connections ?p0 ! c))\<rparr>]\<rparr>)))"
      by (intro postedOk_runMicrotasks postedOk_applyEffect postedOk_requests p0)
    then show ?thesis using True Some by (simp add: workerMessage_def onMessage_def)
  qed
qed

lemma postedOk_workerError: assumes "postedOk p" shows "postedOk (workerError c e p)"
proof (cases "c < length (connections p) \<and> listening (connections p ! c)")
  case False
  show ?thesis using assms workerError_skip [OF False] by simp
next
  case True
  let ?p0 = "runMicrotasks p"
  have p0: "postedOk ?p0" by (rule postedOk_runMicrotasks [OF assms])
  have "postedOk (runMicrotasks (foldl (\<lambda>q e. applyEffect c e q)
      (?p0\<lparr>connections := (connections ?p0)[c := (connections ?p0 ! c)\<lparr>requests := []\<rparr>]\<rparr>)
      (map (\<lambda>request. Settle request (Reject (ErrorEvent e))) (map snd (requests (connections ?p0 ! c))))))"
    by (intro postedOk_runMicrotasks postedOk_applyEffects postedOk_requests p0)
  then show ?thesis using True by (simp add: workerError_def onError_def)
qed

lemma postedOk_step:
  assumes "case inst w of None \<Rightarrow> True | Some i \<Rightarrow> postedOk i"
  shows "case inst (step w e) of None \<Rightarrow> True | Some i \<Rightarrow> postedOk i"
proof (cases "inst w")
  case None
  have n: "postedOk (newLazyWorkerProxy a px)" for a px
    by (simp add: postedOk_def newLazyWorkerProxy_def)
  have r: "postedOk (ready (newLazyWorkerProxy a px))" for a px
    by (rule postedOk_ready [OF n])
  show ?thesis using None n r
    by (cases e) (simp_all add: getProxy_def acquire_def release_def ensureInstance_def onInstance_def)
next
  case (Some i)
  then have i: "postedOk i" using assms by simp
  show ?thesis using Some i
    by (cases e)
       (simp_all add: getProxy_def acquire_def release_def ensureInstance_def onInstance_def
          postedOk_ready postedOk_disconnect postedOk_callMethod postedOk_runMicrotasks
          postedOk_workerMessage postedOk_workerError)
qed

lemma postedOk_run:
  "case inst w of None \<Rightarrow> True | Some i \<Rightarrow> postedOk i \<Longrightarrow>
   case inst (run w es) of None \<Rightarrow> True | Some i \<Rightarrow> postedOk i"
proof (induction es arbitrary: w)
  case Nil
  then show ?case by (simp add: run_def)
next
  case (Cons e es)
  have "case inst (run (step w e) es) of None \<Rightarrow> True | Some i \<Rightarrow> postedOk i"
    by (rule Cons.IH [OF postedOk_step [OF Cons.prems]])
  then show ?case by (simp add: run_def)
qed

lemma postedOk_reach:
  "inst (run (refCountedWorker a) es) = Some i \<Longrightarrow> postedOk i"
  using postedOk_run [of "refCountedWorker a" es] by (simp add: refCountedWorker_def)

section \<open>Entering \<open>connecting\<close> and \<open>connected\<close>\<close>

lemma stateType_connecting: "stateType st = ''connecting'' \<longleftrightarrow> (\<exists>r k. st = Connecting r k)"
  by (cases st) simp_all

lemma stateType_connected: "stateType st = ''connected'' \<longleftrightarrow> (\<exists>c k. st = Connected c k)"
  by (cases st) simp_all

lemma connecting_tryConnect:
  assumes i: "proxyOk p" and n: "connectionState p \<noteq> Connecting r k"
    and c: "connectionState (snd (tryConnect p)) = Connecting r k"
  shows "connectionState p = Ready r k \<and>
         connections (snd (tryConnect p)) = connections p @
           [call newWorkerConnection (ConnectAttempt r k) ''constructor'' (constructorArgs p) (Some k)]"
proof (cases "connectionState p")
  case (Ready r' k')
  then have "r' = r" "k' = k" using c by (simp_all add: tryConnect_def)
  then show ?thesis using Ready connect_Ready [OF i, of r k] by (simp add: tryConnect_def)
qed (use n c in \<open>simp_all add: tryConnect_def makeBlockedState_def\<close>)

lemma connecting_ready:
  assumes i: "proxyOk p" and n: "connectionState p \<noteq> Connecting r k"
    and c: "connectionState (ready p) = Connecting r k"
  shows "connections (ready p) = connections p @
           [call newWorkerConnection (ConnectAttempt r k) ''constructor'' (constructorArgs p) (Some k)]"
proof (cases "connectionState p")
  case (Blocked r' k')
  let ?q = "p\<lparr>connectionState := Ready r' k'\<rparr>"
  have rq: "ready p = snd (tryConnect ?q)" using Blocked by (simp add: ready_def)
  have cq: "connectionState (snd (tryConnect ?q)) = Connecting r k" using c rq by simp
  have nq: "connectionState ?q \<noteq> Connecting r k" by simp
  have "connections (snd (tryConnect ?q)) = connections ?q @
      [call newWorkerConnection (ConnectAttempt r k) ''constructor'' (constructorArgs ?q) (Some k)]"
    using connecting_tryConnect [OF inv_promote [OF i Blocked] nq cq] by (rule conjunct2)
  then have "connections (ready p) = connections ?q @
      [call newWorkerConnection (ConnectAttempt r k) ''constructor'' (constructorArgs ?q) (Some k)]"
    unfolding rq .
  then show ?thesis by simp
qed (use n c in \<open>simp_all add: ready_def makeBlockedState_def\<close>)

lemma connecting_callMethod:
  assumes i: "proxyOk p" and n: "connectionState p \<noteq> Connecting r k"
    and c: "connectionState (snd (callMethod m a p)) = Connecting r k"
  shows "connections (snd (callMethod m a p)) = connections p @
           [call newWorkerConnection (ConnectAttempt r k) ''constructor'' (constructorArgs p) (Some k)]"
proof -
  obtain f q where g: "getMethod m p = (f, q)" by (cases "getMethod m p")
  have q: "connections q = connections p" "constructorArgs q = constructorArgs p"
      "connectionState q = connectionState p"
    using g by (auto simp: getMethod_def split: option.splits)
  have iq: "proxyOk q" using inv_getMethod [OF i, of m] g by simp
  let ?q1 = "q\<lparr>results := results q @ [Pending]\<rparr>"
  have "connectionState ?q1 = Ready r k \<and> connections (snd (tryConnect ?q1)) = connections ?q1 @
      [call newWorkerConnection (ConnectAttempt r k) ''constructor'' (constructorArgs ?q1) (Some k)]"
    by (rule connecting_tryConnect [OF inv_newResult [OF iq]])
       (use n c q g in \<open>simp_all add: callMethod_def state_invoke\<close>)
  then show ?thesis using q g by (simp add: callMethod_def connections_invoke)
qed

lemma new_channel:
  "posted (call newWorkerConnection w ''constructor'' a s) = [constructorCall a] \<and>
   listening (call newWorkerConnection w ''constructor'' a s) \<and>
   \<not> terminated (call newWorkerConnection w ''constructor'' a s)"
  by (simp add: call_def newWorkerConnection_def constructorCall_def)

lemma enter_connecting:
  assumes h: "handleOk a w" and n: "getState w \<noteq> ''connecting''"
    and c: "getState (step w e) = ''connecting''"
  shows "\<exists>conn. channels (step w e) = channels w @ [conn] \<and> posted conn = [constructorCall a] \<and>
           listening conn \<and> \<not> terminated conn"
proof (cases "inst w")
  case None
  have "stateType (connectionState (ready (newLazyWorkerProxy x y))) \<noteq> ''connecting''" for x y
    by (simp add: ready_def newLazyWorkerProxy_def makeBlockedState_def)
  then have "getState (step w e) \<noteq> ''connecting''" using None
    by (cases e)
       (simp_all add: getState_def getProxy_def acquire_def release_def ensureInstance_def
          onInstance_def newLazyWorkerProxy_def)
  then show ?thesis using c by simp
next
  case (Some i)
  note d = hinv_SomeD [OF h Some]
  have ni: "\<And>r k. connectionState i \<noteq> Connecting r k"
    using n Some by (auto simp: getState_def)
  have ai: "constructorArgs i = a" using d(3) by (simp add: ident_def)
  have goal: "\<exists>conn. channels (step w e) = channels w @ [conn] \<and> posted conn = [constructorCall a] \<and>
           listening conn \<and> \<not> terminated conn"
    if s: "inst (step w e) = Some (f i)"
      and k: "\<And>r k. connectionState (f i) = Connecting r k \<Longrightarrow> connections (f i) = connections i @
           [call newWorkerConnection (ConnectAttempt r k) ''constructor'' (constructorArgs i) (Some k)]" for f
  proof -
    obtain r k where "connectionState (f i) = Connecting r k"
      using c s by (auto simp: getState_def stateType_connecting)
    from k [OF this] show ?thesis
      using s Some ai new_channel [of "ConnectAttempt r k" a "Some k"] by (simp add: channels_def)
  qed
  show ?thesis
  proof (cases e)
    case GetProxy
    then show ?thesis using n c Some by (simp add: getProxy_def ensureInstance_def)
  next
    case Acquire
    show ?thesis
    proof (cases "0 < refCount w + 1")
      case True
      show ?thesis
        by (rule goal [where f = ready])
           (use Acquire Some True connecting_ready [OF d(2) ni] in \<open>simp_all add: acquire_def ensureInstance_def\<close>)
    next
      case False
      then have "getState (step w e) = getState w"
        using Acquire Some by (simp add: acquire_def ensureInstance_def getState_def)
      then show ?thesis using n c by simp
    qed
  next
    case Release
    then have "getState (step w e) = getState w \<or> getState (step w e) = ''disconnected''"
      using Some by (simp add: release_def getState_def state_disconnect)
    then show ?thesis using n c by auto
  next
    case (Call m args)
    show ?thesis
      by (rule goal [where f = "\<lambda>i. snd (callMethod m args i)"])
         (use Call Some connecting_callMethod [OF d(2) ni] in \<open>simp_all add: onInstance_def\<close>)
  next
    case Tick
    then have "getState (step w e) = getState w"
      using Some by (simp add: onInstance_def getState_def frame_runMicrotasks)
    then show ?thesis using n c by simp
  next
    case (Message c' msg)
    then have "getState (step w e) = getState w \<or> getState (step w e) = ''connected''"
      using Some state_workerMessage [OF d(2), of c' msg]
      by (auto simp: onInstance_def getState_def)
    then show ?thesis using n c by auto
  next
    case (Fault c' x)
    then have "getState (step w e) = getState w"
      using Some by (simp add: onInstance_def getState_def state_workerError)
    then show ?thesis using n c by simp
  qed
qed

lemma state_callMethod_connected:
  "connectionState (snd (callMethod m a p)) = Connected c k \<Longrightarrow> connectionState p = Connected c k"
proof -
  obtain f q where g: "getMethod m p = (f, q)" by (cases "getMethod m p")
  have q: "connectionState q = connectionState p"
    using g by (auto simp: getMethod_def split: option.splits)
  assume "connectionState (snd (callMethod m a p)) = Connected c k"
  then have "connectionState (snd (tryConnect (q\<lparr>results := results q @ [Pending]\<rparr>))) = Connected c k"
    using g by (simp add: callMethod_def state_invoke)
  then show ?thesis using q
    by (cases "connectionState p") (simp_all add: tryConnect_def makeBlockedState_def)
qed

lemma state_ready_connected:
  "connectionState (ready p) = Connected c k \<Longrightarrow> connectionState p = Connected c k"
  by (cases "connectionState p") (simp_all add: ready_def makeBlockedState_def tryConnect_def)

lemma enter_connected:
  assumes h: "handleOk a w" and po: "case inst w of None \<Rightarrow> True | Some i \<Rightarrow> postedOk i"
    and n: "getState w \<noteq> ''connected''"
    and c: "getState (step w e) = ''connected''"
  shows "getState w = ''connecting'' \<and> channels w \<noteq> [] \<and>
         (\<exists>v. e = Message (length (channels w) - 1) (WorkerCallSuccess 1 v)) \<and>
         hd (posted (last (channels w))) = constructorCall a \<and>
         listening (last (channels w))"
proof (cases "inst w")
  case None
  have "stateType (connectionState (ready (newLazyWorkerProxy x y))) \<noteq> ''connected''" for x y
    by (simp add: ready_def newLazyWorkerProxy_def makeBlockedState_def)
  then have "getState (step w e) \<noteq> ''connected''" using None
    by (cases e)
       (simp_all add: getState_def getProxy_def acquire_def release_def ensureInstance_def
          onInstance_def newLazyWorkerProxy_def)
  then show ?thesis using c by simp
next
  case (Some i)
  note d = hinv_SomeD [OF h Some]
  have ni: "\<And>c k. connectionState i \<noteq> Connected c k"
    using n Some by (auto simp: getState_def)
  have ai: "constructorArgs i = a" using d(3) by (simp add: ident_def)
  have pi: "postedOk i" using po Some by simp
  show ?thesis
  proof (cases e)
    case GetProxy
    then show ?thesis using n c Some by (simp add: getProxy_def ensureInstance_def)
  next
    case Acquire
    then have "\<exists>c k. connectionState (if 0 < refCount w + 1 then ready i else i) = Connected c k"
      using c Some by (simp add: acquire_def ensureInstance_def getState_def stateType_connected)
    then show ?thesis using ni state_ready_connected [of i] by (auto split: if_splits)
  next
    case Release
    then have "getState (step w e) = getState w \<or> getState (step w e) = ''disconnected''"
      using Some by (simp add: release_def getState_def state_disconnect)
    then show ?thesis using n c by auto
  next
    case (Call m args)
    then have "\<exists>c k. connectionState (snd (callMethod m args i)) = Connected c k"
      using c Some by (simp add: onInstance_def getState_def stateType_connected)
    then show ?thesis using ni state_callMethod_connected [of m args i] by auto
  next
    case Tick
    then have "getState (step w e) = getState w"
      using Some by (simp add: onInstance_def getState_def frame_runMicrotasks)
    then show ?thesis using n c by simp
  next
    case (Fault c' x)
    then have "getState (step w e) = getState w"
      using Some by (simp add: onInstance_def getState_def state_workerError)
    then show ?thesis using n c by simp
  next
    case (Message c' msg)
    have s: "inst (step w e) = Some (workerMessage c' msg i)"
      using Message Some by (simp add: onInstance_def)
    have "connectionState (workerMessage c' msg i) \<noteq> connectionState i"
      using c n s Some by (auto simp: getState_def)
    then obtain k v where m: "msg = WorkerCallSuccess 1 v" and st: "connectionState i = Connecting k k"
      and sc: "Suc c' = length (connections i)" and li: "listening (connections i ! c')"
      using state_workerMessage [OF d(2), of c' msg] by auto
    have ne: "connections i \<noteq> []" using sc by auto
    have "c' = length (connections i) - 1" using sc by simp
    then have la: "last (connections i) = connections i ! c'" using ne by (simp add: last_conv_nth)
    have "hd (posted (connections i ! c')) = constructorCall a"
      using postedOk_nth [OF pi, of c'] sc ai by simp
    then show ?thesis using Message m st sc li ne la Some
      by (simp add: getState_def channels_def)
  qed
qed

text \<open>
  C4. In every reachable state: a step that takes the state to \<open>'connecting'\<close> from any
  other state (from \<open>'ready'\<close> by a method call, from \<open>'blocked'\<close> by \<open>acquire()\<close>) calls
  the worker factory once and adds one new channel, on which exactly one envelope has
  been sent, the \<open>'constructor'\<close> call with id 1 and the configured arguments; and a
  step that takes the state to \<open>'connected'\<close> is the arrival, in state \<open>'connecting'\<close>,
  of the success envelope with id 1 on the newest channel, whose first envelope is
  that \<open>'constructor'\<close> call.
\<close>

theorem connecting_sends_constructor_first:
  "(getState (run (refCountedWorker a) es) \<noteq> ''connecting'' \<and>
    getState (step (run (refCountedWorker a) es) e) = ''connecting'' \<longrightarrow>
      (\<exists>conn. channels (step (run (refCountedWorker a) es) e) = channels (run (refCountedWorker a) es) @ [conn] \<and>
         posted conn = [constructorCall a] \<and> listening conn \<and> \<not> terminated conn)) \<and>
   (getState (run (refCountedWorker a) es) \<noteq> ''connected'' \<and>
    getState (step (run (refCountedWorker a) es) e) = ''connected'' \<longrightarrow>
      getState (run (refCountedWorker a) es) = ''connecting'' \<and>
      channels (run (refCountedWorker a) es) \<noteq> [] \<and>
      (\<exists>v. e = Message (length (channels (run (refCountedWorker a) es)) - 1) (WorkerCallSuccess 1 v)) \<and>
      hd (posted (last (channels (run (refCountedWorker a) es)))) = constructorCall a \<and>
      listening (last (channels (run (refCountedWorker a) es))))"
proof -
  have h: "handleOk a (run (refCountedWorker a) es)" by (rule hinv_reach)
  have p: "case inst (run (refCountedWorker a) es) of None \<Rightarrow> True | Some i \<Rightarrow> postedOk i"
    using postedOk_run [of "refCountedWorker a" es] by (simp add: refCountedWorker_def)
  show ?thesis using enter_connecting [OF h] enter_connected [OF h p] by blast
qed

theorem connecting_sends_constructor_first_witness:
  "getState (run (refCountedWorker [Num 1]) [Acquire]) \<noteq> ''connecting'' \<and>
   getState (step (run (refCountedWorker [Num 1]) [Acquire]) (Call ''add'' [Num 2, Num 3])) = ''connecting'' \<and>
   (\<exists>conn. channels (step (run (refCountedWorker [Num 1]) [Acquire]) (Call ''add'' [Num 2, Num 3]))
        = channels (run (refCountedWorker [Num 1]) [Acquire]) @ [conn] \<and>
      posted conn = [constructorCall [Num 1]] \<and> listening conn \<and> \<not> terminated conn) \<and>
   getState (run (refCountedWorker [Num 1]) [Acquire, Call ''add'' [Num 2, Num 3]]) \<noteq> ''connected'' \<and>
   getState (step (run (refCountedWorker [Num 1]) [Acquire, Call ''add'' [Num 2, Num 3]])
      (Message 0 (WorkerCallSuccess 1 Undefined))) = ''connected'' \<and>
   hd (posted (last (channels (run (refCountedWorker [Num 1]) [Acquire, Call ''add'' [Num 2, Num 3]]))))
     = constructorCall [Num 1]"
proof -
  have a: "getState (run (refCountedWorker [Num 1]) [Acquire]) \<noteq> ''connecting'' \<and>
      getState (step (run (refCountedWorker [Num 1]) [Acquire]) (Call ''add'' [Num 2, Num 3])) = ''connecting''"
    by (simp add: exec_defs)
  have b: "getState (run (refCountedWorker [Num 1]) [Acquire, Call ''add'' [Num 2, Num 3]]) \<noteq> ''connected'' \<and>
      getState (step (run (refCountedWorker [Num 1]) [Acquire, Call ''add'' [Num 2, Num 3]])
        (Message 0 (WorkerCallSuccess 1 Undefined))) = ''connected''"
    by (simp add: exec_defs)
  have c: "\<exists>conn. channels (step (run (refCountedWorker [Num 1]) [Acquire]) (Call ''add'' [Num 2, Num 3]))
        = channels (run (refCountedWorker [Num 1]) [Acquire]) @ [conn] \<and>
      posted conn = [constructorCall [Num 1]] \<and> listening conn \<and> \<not> terminated conn"
    by (rule connecting_sends_constructor_first
          [of "[Num 1]" "[Acquire]" "Call ''add'' [Num 2, Num 3]", THEN conjunct1, THEN mp, OF a])
  note d0 = connecting_sends_constructor_first
      [of "[Num 1]" "[Acquire, Call ''add'' [Num 2, Num 3]]" "Message 0 (WorkerCallSuccess 1 Undefined)",
       THEN conjunct2, THEN mp, OF b]
  have d: "hd (posted (last (channels (run (refCountedWorker [Num 1]) [Acquire, Call ''add'' [Num 2, Num 3]]))))
     = constructorCall [Num 1]"
    by (rule d0 [THEN conjunct2, THEN conjunct2, THEN conjunct2, THEN conjunct1])
  show ?thesis
    by (rule conjI [OF a [THEN conjunct1] conjI [OF a [THEN conjunct2]
          conjI [OF c conjI [OF b [THEN conjunct1] conjI [OF b [THEN conjunct2] d]]]]])
qed

section \<open>What running the microtasks leaves alone\<close>

lemma fields_resume:
  "shared (resume t p) = shared p \<and> controllers (resume t p) = controllers p \<and>
   awaiting (resume t p) = awaiting p \<and> microtasks (resume t p) = microtasks p"
  by (cases "(t, p)" rule: resume.cases) (simp_all add: settleResult_def)

lemma conn_resume: "tOk n m t \<Longrightarrow> n \<le> c \<Longrightarrow> connections (resume t p) ! c = connections p ! c"
  by (cases "(t, p)" rule: resume.cases) (simp_all add: settleResult_def)

lemma res_resume: "tOk n m t \<Longrightarrow> m \<le> P \<Longrightarrow> results (resume t p) ! P = results p ! P"
  by (cases "(t, p)" rule: resume.cases) (simp_all add: settleResult_def)

lemma fields_resumes:
  "shared (foldl (\<lambda>q t. resume t q) p ts) = shared p \<and>
   controllers (foldl (\<lambda>q t. resume t q) p ts) = controllers p \<and>
   awaiting (foldl (\<lambda>q t. resume t q) p ts) = awaiting p \<and>
   microtasks (foldl (\<lambda>q t. resume t q) p ts) = microtasks p \<and>
   length (results (foldl (\<lambda>q t. resume t q) p ts)) = length (results p)"
  by (induction ts arbitrary: p) (simp_all add: fields_resume length_resume)

lemma conn_resumes:
  "list_all (tOk n m) ts \<Longrightarrow> n \<le> c \<Longrightarrow>
   connections (foldl (\<lambda>q t. resume t q) p ts) ! c = connections p ! c"
proof (induction ts arbitrary: p)
  case Nil
  then show ?case by simp
next
  case (Cons t ts)
  have "connections (resume t p) ! c = connections p ! c"
    using Cons.prems by (intro conn_resume [of n m]) simp_all
  then show ?case using Cons by simp
qed

lemma res_resumes:
  "list_all (tOk n m) ts \<Longrightarrow> m \<le> P \<Longrightarrow>
   results (foldl (\<lambda>q t. resume t q) p ts) ! P = results p ! P"
proof (induction ts arbitrary: p)
  case Nil
  then show ?case by simp
next
  case (Cons t ts)
  have "results (resume t p) ! P = results p ! P"
    using Cons.prems by (intro res_resume [of n m]) simp_all
  then show ?case using Cons by simp
qed

lemma runMicrotasks_empty: "microtasks p = [] \<Longrightarrow> runMicrotasks p = p"
  by (cases p) (simp add: runMicrotasks_def)


section \<open>The answer to a call\<close>

lemma reply_fulfils:
  assumes n: "n < length (connections p)" and li: "listening (connections p ! n)"
    and mt: "microtasks p = []"
    and e: "map_of (requests (connections p ! n)) j = Some (MethodResult P)"
    and P: "P < length (results p)" and pe: "results p ! P = Pending"
  shows "results (workerMessage n (WorkerCallSuccess j v) p) ! P = Fulfilled v"
proof -
  let ?p1 = "p\<lparr>connections := (connections p)
      [n := (connections p ! n)\<lparr>requests := AList.delete j (requests (connections p ! n))\<rparr>]\<rparr>"
  let ?p2 = "settleResult P (Fulfilled v) ?p1"
  have w: "workerMessage n (WorkerCallSuccess j v) p = runMicrotasks ?p2"
    using n li e by (simp add: workerMessage_def onMessage_def runMicrotasks_empty [OF mt])
  have "microtasks ?p2 = []" using mt by (simp add: settleResult_def)
  then have "runMicrotasks ?p2 = ?p2" by (rule runMicrotasks_empty)
  then show ?thesis using w P pe by (simp add: settleResult_def)
qed

section \<open>The answer to the constructor call\<close>

lemma moved_tasks:
  assumes "awOk ns P aw"
  shows "list_all (tOk (Suc n) P) (map (\<lambda>w. (snd w, Fulfilled (n, k))) (filter (\<lambda>w. fst w = k) aw))"
proof -
  have "tOk (Suc n) P (snd w, Fulfilled (n, k))" if "w \<in> set aw" for w
    using assms that by (cases w) (auto simp: awOk_def)
  then show ?thesis by (auto simp: list_all_iff)
qed

lemma filter_butlast_last:
  "xs \<noteq> [] \<Longrightarrow> filter f xs = filter f (butlast xs) @ filter f [last xs]"
  by (induction xs) auto

lemma constructed_sends:
  assumes f: "fresh p n k P m a"
  shows "connectionState (workerMessage n (WorkerCallSuccess 1 u) p) = Connected n k \<and>
         n < length (connections (workerMessage n (WorkerCallSuccess 1 u) p)) \<and>
         listening (connections (workerMessage n (WorkerCallSuccess 1 u) p) ! n) \<and>
         microtasks (workerMessage n (WorkerCallSuccess 1 u) p) = [] \<and>
         call_method (last (posted (connections (workerMessage n (WorkerCallSuccess 1 u) p) ! n))) = m \<and>
         args (last (posted (connections (workerMessage n (WorkerCallSuccess 1 u) p) ! n))) = a \<and>
         map_of (requests (connections (workerMessage n (WorkerCallSuccess 1 u) p) ! n))
           (call_id (last (posted (connections (workerMessage n (WorkerCallSuccess 1 u) p) ! n))))
           = Some (MethodResult P) \<and>
         P < length (results (workerMessage n (WorkerCallSuccess 1 u) p)) \<and>
         results (workerMessage n (WorkerCallSuccess 1 u) p) ! P = Pending"
proof -
  have st: "connectionState p = Connecting k k" and sn: "Suc n = length (connections p)"
    and rq: "requests (connections p ! n) = [(1, ConnectAttempt k k)]"
    and li: "listening (connections p ! n)"
    and kc: "k < length (controllers p)" "\<not> controllers p ! k"
    and ks: "k < length (shared p)" "shared p ! k = Pending"
    and aw: "awaiting p \<noteq> []" "last (awaiting p) = (k, (P, m, a))"
    and ao: "awOk (length (shared p)) P (butlast (awaiting p))"
    and mo: "list_all (tOk n P) (microtasks p)"
    and Pl: "P < length (results p)" and Pp: "results p ! P = Pending"
    using f by (simp_all add: fresh_def)
  have nl: "n < length (connections p)" using sn by simp
  let ?p0 = "runMicrotasks p"
  let ?e = "p\<lparr>microtasks := []\<rparr>"
  have p0: "?p0 = foldl (\<lambda>q t. resume t q) ?e (microtasks p)" by (simp add: runMicrotasks_def)
  have s0: "connectionState ?p0 = Connecting k k" using st by (simp add: frame_runMicrotasks)
  have l0: "length (connections ?p0) = length (connections p)" by (simp add: frame_runMicrotasks)
  have f0: "shared ?p0 = shared p" "controllers ?p0 = controllers p" "awaiting ?p0 = awaiting p"
      "microtasks ?p0 = []" "length (results ?p0) = length (results p)"
    using fields_resumes [of ?e "microtasks p"] by (simp_all add: p0)
  have c0: "connections ?p0 ! n = connections p ! n"
    using conn_resumes [OF mo, of n ?e] by (simp add: p0)
  have r0: "results ?p0 ! P = Pending"
    using res_resumes [OF mo, of P ?e] Pp by (simp add: p0)
  let ?conn = "(connections p ! n)\<lparr>requests := []\<rparr>"
  let ?p1 = "?p0\<lparr>connections := (connections ?p0)[n := ?conn]\<rparr>"
  have om: "onMessage (connections ?p0 ! n) (WorkerCallSuccess 1 u)
      = (?conn, [Settle (ConnectAttempt k k) (Resolve u)])"
    by (simp add: onMessage_def c0 rq)
  let ?aw = "butlast (awaiting p)"
  have awe: "awaiting p = ?aw @ [(k, (P, m, a))]"
    using aw append_butlast_last_id [of "awaiting p"] by simp
  let ?ts = "map (\<lambda>w. (snd w, Fulfilled (n, k))) (filter (\<lambda>w. fst w = k) ?aw)"
  let ?t = "((P, m, a), Fulfilled (n, k))"
  let ?p2 = "?p1\<lparr>connectionState := Connected n k, shared := (shared p)[k := Fulfilled (n, k)],
      microtasks := ?ts @ [?t], awaiting := filter (\<lambda>w. fst w \<noteq> k) ?aw\<rparr>"
  have fy: "filter (\<lambda>w. fst w = k) (awaiting p) = filter (\<lambda>w. fst w = k) ?aw @ [(k, (P, m, a))]"
    using filter_butlast_last [OF aw(1), of "\<lambda>w. fst w = k"] aw(2) by simp
  have fn: "filter (\<lambda>w. fst w \<noteq> k) (awaiting p) = filter (\<lambda>w. fst w \<noteq> k) ?aw"
    using filter_butlast_last [OF aw(1), of "\<lambda>w. fst w \<noteq> k"] aw(2) by simp
  have ae: "applyEffect n (Settle (ConnectAttempt k k) (Resolve u)) ?p1 = ?p2"
    using kc ks by (simp add: settleShared_def f0 fy fn)
  have wm: "workerMessage n (WorkerCallSuccess 1 u) p = runMicrotasks ?p2"
    using nl li om ae by (simp add: workerMessage_def del: One_nat_def)
  let ?e2 = "?p2\<lparr>microtasks := []\<rparr>"
  let ?q = "foldl (\<lambda>q t. resume t q) ?e2 ?ts"
  have rm: "runMicrotasks ?p2 = resume ?t ?q" by (simp add: runMicrotasks_def)
  have tsOk: "list_all (tOk (Suc n) P) ?ts" by (rule moved_tasks [OF ao])
  have qs: "connectionState ?q = Connected n k"
    and ql: "length (connections ?q) = length (connections p)"
    and qi: "listening (connections ?q ! n)"
    using frame_resumes [of ?e2 ?ts n] nl l0 li by simp_all
  have qf: "microtasks ?q = []" "length (results ?q) = length (results p)"
    using fields_resumes [of ?e2 ?ts] f0 by simp_all
  have qr: "results ?q ! P = Pending"
    using res_resumes [OF tsOk, of P ?e2] r0 by simp
  let ?X = "connections ?q ! n"
  have fin: "workerMessage n (WorkerCallSuccess 1 u) p
      = ?q\<lparr>connections := (connections ?q)[n := call ?X (MethodResult P) m a (Some k)]\<rparr>"
    unfolding wm rm by simp
  have nq: "n < length (connections ?q)" using ql nl by simp
  show ?thesis
    unfolding fin using qs nq qi qf qr Pl
    by (simp add: call_def update_conv')
qed

section \<open>A call and the connection it waits for\<close>

lemma callMethod_eq:
  "methods p = [] \<Longrightarrow> callMethod m a p = invoke m a (p\<lparr>closures := closures p @ [m]\<rparr>)"
  by (simp add: callMethod_def getMethod_def)



lemma invoke_Ready:
  "connectionState p = Ready r k \<Longrightarrow> \<not> controllers p ! k \<Longrightarrow> shared p ! r = Pending \<Longrightarrow>
   snd (invoke m a p) =
     p\<lparr>results := results p @ [Pending],
       connections := connections p @
         [call newWorkerConnection (ConnectAttempt r k) ''constructor'' (constructorArgs p) (Some k)],
       connectionState := Connecting r k,
       awaiting := awaiting p @ [(r, (length (results p), m, a))]\<rparr>"
  by (simp add: invoke_def tryConnect_def connect_def)


lemma ready_Disconnected:
  "connectionState p = Disconnected \<Longrightarrow>
   ready p =
     p\<lparr>shared := shared p @ [Pending], controllers := controllers p @ [False],
       connectionState := Ready (length (shared p)) (length (controllers p))\<rparr>"
  by (simp add: ready_def makeBlockedState_def)

lemma new_requests:
  "requests (call newWorkerConnection w ''constructor'' a s) = [(1, w)]"
  by (simp add: call_def newWorkerConnection_def)

lemma mtOk_list: "proxyOk p \<Longrightarrow> list_all (tOk (length (connections p)) (length (results p))) (microtasks p)"
  using inv_mt [of p] by (simp add: list_all_iff)

text \<open>\<open>ready()\<close> on a disconnected proxy, and a method call after it\<close>
lemma ready_then_call:
  assumes i: "proxyOk p" and d: "connectionState p = Disconnected"
  shows "fresh (snd (callMethod m a (ready p))) (length (connections p)) (length (controllers p))
           (length (results p)) m a \<and>
         connections (snd (callMethod m a (ready p))) = connections p @
           [last (connections (snd (callMethod m a (ready p))))] \<and>
         posted (last (connections (snd (callMethod m a (ready p))))) = [constructorCall (constructorArgs p)] \<and>
         listening (last (connections (snd (callMethod m a (ready p))))) \<and>
         \<not> terminated (last (connections (snd (callMethod m a (ready p)))))"
proof -
  let ?k = "length (controllers p)"
  have l: "length (shared p) = length (controllers p)" by (rule inv_len [OF i])
  have sp: "(shared p @ [Pending]) ! length (controllers p) = Pending"
    unfolding l [symmetric] by simp
  have ao: "awOk (Suc (length (shared p))) (length (results p)) (awaiting p)"
    by (rule awOk_grow [OF inv_aw [OF i]]) simp_all
  note mo = mtOk_list [OF i]
  let ?r = "ready p"
  have r: "?r = p\<lparr>shared := shared p @ [Pending], controllers := controllers p @ [False],
       connectionState := Ready ?k ?k\<rparr>"
    using d l by (simp add: ready_Disconnected)
  have me: "methods ?r = []" using inv_me [OF i] by (simp add: r)
  let ?q = "?r\<lparr>closures := closures ?r @ [m]\<rparr>"
  have cm: "callMethod m a ?r = invoke m a ?q" by (rule callMethod_eq [OF me])
  let ?c = "snd (callMethod m a ?r)"
  have c: "?c = ?q\<lparr>results := results p @ [Pending],
       connections := connections p @
         [call newWorkerConnection (ConnectAttempt ?k ?k) ''constructor'' (constructorArgs p) (Some ?k)],
       connectionState := Connecting ?k ?k,
       awaiting := awaiting p @ [(?k, (length (results p), m, a))]\<rparr>"
    unfolding cm by (subst invoke_Ready [of ?q ?k ?k]) (simp_all add: r sp)
  have "fresh ?c (length (connections p)) ?k (length (results p)) m a"
    unfolding c using ao mo l sp by (simp add: fresh_def r new_requests call_def newWorkerConnection_def)
  moreover have "connections ?c = connections p @ [last (connections ?c)] \<and>
       posted (last (connections ?c)) = [constructorCall (constructorArgs p)] \<and>
       listening (last (connections ?c)) \<and> \<not> terminated (last (connections ?c))"
    unfolding c by (simp add: r call_def newWorkerConnection_def constructorCall_def)
  ultimately show ?thesis by blast
qed

section \<open>The scenarios on the handle\<close>

lemma run2: "run w [e1, e2] = step (step w e1) e2"
  and run3: "run w [e1, e2, e3] = step (step (step w e1) e2) e3"
  and run1: "run w [e1] = step w e1"
  by (simp_all add: run_def)

lemma step_Call: "inst w = Some i \<Longrightarrow> step w (Call m x) = w\<lparr>inst := Some (snd (callMethod m x i))\<rparr>"
  by (simp add: onInstance_def)

lemma step_Message: "inst w = Some i \<Longrightarrow> step w (Message c msg) = w\<lparr>inst := Some (workerMessage c msg i)\<rparr>"
  by (simp add: onInstance_def)

lemma step_Acquire:
  "inst w = Some i \<Longrightarrow> 0 \<le> refCount w \<Longrightarrow>
   step w Acquire = w\<lparr>refCount := refCount w + 1, inst := Some (ready i)\<rparr>"
  by (simp add: acquire_def ensureInstance_def)

lemma step_Release:
  "inst w = Some i \<Longrightarrow> refCount w \<le> 1 \<Longrightarrow>
   step w Release = w\<lparr>refCount := refCount w - 1, inst := Some (disconnect i)\<rparr>"
  by (simp add: release_def)

lemma frame_disconnect:
  "length (connections (disconnect p)) = length (connections p) \<and>
   results (disconnect p) = results p \<and>
   (\<forall>c k. connectionState p = Connected c k \<and> c < length (connections p) \<longrightarrow>
      connections (disconnect p) ! c = dispose (connections p ! c))"
  by (cases "connectionState p") (simp_all add: disconnect_def)

lemma reconnect_builds_new_channel:
  assumes h: "handleOk a w" and rc: "refCount w = 1"
  shows "getState (step w Release) = ''disconnected'' \<and>
         (\<forall>c. current w = Some c \<longrightarrow> c < length (channels w) \<and>
            terminated (channels (run w [Release, Acquire, Call m x]) ! c) \<and>
            \<not> listening (channels (run w [Release, Acquire, Call m x]) ! c)) \<and>
         getState (run w [Release, Acquire, Call m x]) = ''connecting'' \<and>
         length (channels (run w [Release, Acquire, Call m x])) = Suc (length (channels w)) \<and>
         posted (channels (run w [Release, Acquire, Call m x]) ! length (channels w)) = [constructorCall a] \<and>
         listening (channels (run w [Release, Acquire, Call m x]) ! length (channels w)) \<and>
         \<not> terminated (channels (run w [Release, Acquire, Call m x]) ! length (channels w)) \<and>
         getState (step (run w [Release, Acquire, Call m x])
            (Message (length (channels w)) (WorkerCallSuccess 1 u))) = ''connected'' \<and>
         current (step (run w [Release, Acquire, Call m x])
            (Message (length (channels w)) (WorkerCallSuccess 1 u))) = Some (length (channels w)) \<and>
         call_method (last (posted (channels (step (run w [Release, Acquire, Call m x])
            (Message (length (channels w)) (WorkerCallSuccess 1 u))) ! length (channels w)))) = m \<and>
         args (last (posted (channels (step (run w [Release, Acquire, Call m x])
            (Message (length (channels w)) (WorkerCallSuccess 1 u))) ! length (channels w)))) = x \<and>
         resultOf (step (step (run w [Release, Acquire, Call m x])
              (Message (length (channels w)) (WorkerCallSuccess 1 u)))
            (Message (length (channels w))
               (WorkerCallSuccess (call_id (last (posted (channels (step (run w [Release, Acquire, Call m x])
                  (Message (length (channels w)) (WorkerCallSuccess 1 u))) ! length (channels w))))) v)))
           (calls w) = Fulfilled v"
proof -
  obtain i where s: "inst w = Some i"
    using h rc by (cases "inst w") (simp_all add: handleOk_def)
  note d = hinv_SomeD [OF h s]
  have ai: "constructorArgs i = a" using d(3) by (simp add: ident_def)
  let ?n = "length (connections i)" and ?P = "length (results i)"
  have n: "length (channels w) = ?n" and P: "calls w = ?P"
    using s by (simp_all add: channels_def calls_def)
  let ?d = "disconnect i"
  have id: "proxyOk ?d" by (rule inv_disconnect [OF d(2)])
  have sd: "connectionState ?d = Disconnected" by (rule state_disconnect)
  have ad: "constructorArgs ?d = a" using ident_disconnect [of i] ai by (simp add: ident_def)
  note fd = frame_disconnect [of i]
  let ?c = "snd (callMethod m x (ready ?d))"
  note rtc = ready_then_call [OF id sd, of m x]
  have f: "fresh ?c ?n (length (controllers ?d)) ?P m x" using rtc fd by simp
  have cc: "connections ?c = connections ?d @ [last (connections ?c)]" using rtc by simp
  have lc: "posted (last (connections ?c)) = [constructorCall a]"
      "listening (last (connections ?c))" "\<not> terminated (last (connections ?c))"
    using rtc ad by simp_all
  have cn: "connections ?c ! ?n = last (connections ?c)"
    using fd by (subst cc) (simp add: nth_append)
  let ?w0 = "w\<lparr>refCount := refCount w - 1, inst := Some ?d\<rparr>"
  have w0: "step w Release = ?w0" by (rule step_Release [OF s]) (simp add: rc)
  let ?w1 = "?w0\<lparr>refCount := refCount ?w0 + 1, inst := Some (ready ?d), inst := Some ?c\<rparr>"
  have w1: "run w [Release, Acquire, Call m x] = ?w1"
    unfolding run3 w0
    by (subst step_Acquire [of _ ?d], simp, simp add: rc, subst step_Call [of _ "ready ?d"]) simp_all
  let ?p' = "workerMessage ?n (WorkerCallSuccess 1 u) ?c"
  let ?w2 = "?w1\<lparr>inst := Some ?p'\<rparr>"
  have w2: "step ?w1 (Message ?n (WorkerCallSuccess 1 u)) = ?w2"
    by (subst step_Message [of _ ?c]) simp_all
  note cs = constructed_sends [OF f, of u]
  let ?j = "call_id (last (posted (connections ?p' ! ?n)))"
  have rf: "results (workerMessage ?n (WorkerCallSuccess ?j v) ?p') ! ?P = Fulfilled v"
    by (rule reply_fulfils) (use cs in simp_all)
  have w3: "step ?w2 (Message ?n (WorkerCallSuccess ?j v))
      = ?w2\<lparr>inst := Some (workerMessage ?n (WorkerCallSuccess ?j v) ?p')\<rparr>"
    by (subst step_Message [of _ ?p']) simp_all
  have c1: "channels ?w1 = connections ?c" by (simp add: channels_def)
  have c2: "channels ?w2 = connections ?p'" by (simp add: channels_def)
  have t1: "getState ?w0 = ''disconnected''" using sd by (simp add: getState_def)
  have t2: "\<forall>c. current w = Some c \<longrightarrow> c < ?n \<and>
      terminated (channels ?w1 ! c) \<and> \<not> listening (channels ?w1 ! c)"
  proof (intro allI impI)
    fix c assume "current w = Some c"
    then obtain k where st: "connectionState i = Connected c k"
      using s by (cases "connectionState i") (simp_all add: current_def)
    have cl: "c < ?n" using inv_st [OF d(2)] st by simp
    then have "connections ?d ! c = dispose (connections i ! c)" using fd st by blast
    moreover have "connections ?c ! c = connections ?d ! c"
      using cl fd by (subst cc) (simp add: nth_append)
    ultimately show "c < ?n \<and> terminated (channels ?w1 ! c) \<and> \<not> listening (channels ?w1 ! c)"
      using cl unfolding c1 by (simp add: dispose_def)
  qed
  have t3: "getState ?w1 = ''connecting''" using f by (simp add: getState_def fresh_def)
  have t4: "length (channels ?w1) = Suc ?n" unfolding c1 using fd by (subst cc) simp
  have t5: "posted (channels ?w1 ! ?n) = [constructorCall a]" "listening (channels ?w1 ! ?n)"
      "\<not> terminated (channels ?w1 ! ?n)"
    unfolding c1 cn by (rule lc)+
  have t6: "getState ?w2 = ''connected''" "current ?w2 = Some ?n"
    using cs by (simp_all add: getState_def current_def)
  have t7: "call_method (last (posted (channels ?w2 ! ?n))) = m"
      "args (last (posted (channels ?w2 ! ?n))) = x"
    using cs unfolding c2 by simp_all
  have t8: "resultOf (step ?w2 (Message ?n (WorkerCallSuccess (call_id (last (posted (channels ?w2 ! ?n)))) v))) ?P
      = Fulfilled v"
    unfolding c2 w3 using rf by (simp add: resultOf_def)
  show ?thesis unfolding n P unfolding w1 w0 unfolding w2 by (intro conjI t1 t2 t3 t4 t5 t6 t7 t8)
qed

section \<open>Reconnecting\<close>

text \<open>
  C7. In every reachable state with count one (whatever happened before, faults of the
  worker included): \<open>release()\<close> disconnects, and the channel that was connected, if
  any, is terminated and detached. \<open>acquire()\<close> and a method call then call the
  worker factory again: a new channel is added after all the earlier ones, live, with
  the \<open>'constructor'\<close> call as its only envelope. When the worker answers it with a
  success envelope, the state is \<open>'connected'\<close> through the new channel, the call has
  been sent on it, and a success envelope for the call fulfils its promise.
\<close>

theorem reconnect_uses_new_channel:
  "refCount (run (refCountedWorker a) es) = 1 \<longrightarrow>
    getState (step (run (refCountedWorker a) es) Release) = ''disconnected'' \<and>
    (\<forall>c. current (run (refCountedWorker a) es) = Some c \<longrightarrow> c < length (channels (run (refCountedWorker a) es)) \<and>
       terminated (channels (run (run (refCountedWorker a) es) [Release, Acquire, Call m x]) ! c) \<and> \<not> listening (channels (run (run (refCountedWorker a) es) [Release, Acquire, Call m x]) ! c)) \<and>
    getState (run (run (refCountedWorker a) es) [Release, Acquire, Call m x]) = ''connecting'' \<and>
    length (channels (run (run (refCountedWorker a) es) [Release, Acquire, Call m x])) = Suc (length (channels (run (refCountedWorker a) es))) \<and>
    posted (channels (run (run (refCountedWorker a) es) [Release, Acquire, Call m x]) ! length (channels (run (refCountedWorker a) es))) = [constructorCall a] \<and>
    listening (channels (run (run (refCountedWorker a) es) [Release, Acquire, Call m x]) ! length (channels (run (refCountedWorker a) es))) \<and>
    \<not> terminated (channels (run (run (refCountedWorker a) es) [Release, Acquire, Call m x]) ! length (channels (run (refCountedWorker a) es))) \<and>
    getState (step (run (run (refCountedWorker a) es) [Release, Acquire, Call m x]) (Message (length (channels (run (refCountedWorker a) es))) (WorkerCallSuccess 1 u))) = ''connected'' \<and>
    current (step (run (run (refCountedWorker a) es) [Release, Acquire, Call m x]) (Message (length (channels (run (refCountedWorker a) es))) (WorkerCallSuccess 1 u))) = Some (length (channels (run (refCountedWorker a) es))) \<and>
    call_method (last (posted (channels (step (run (run (refCountedWorker a) es) [Release, Acquire, Call m x]) (Message (length (channels (run (refCountedWorker a) es))) (WorkerCallSuccess 1 u))) ! length (channels (run (refCountedWorker a) es))))) = m \<and>
    args (last (posted (channels (step (run (run (refCountedWorker a) es) [Release, Acquire, Call m x]) (Message (length (channels (run (refCountedWorker a) es))) (WorkerCallSuccess 1 u))) ! length (channels (run (refCountedWorker a) es))))) = x \<and>
    resultOf (step (step (run (run (refCountedWorker a) es) [Release, Acquire, Call m x]) (Message (length (channels (run (refCountedWorker a) es))) (WorkerCallSuccess 1 u))) (Message (length (channels (run (refCountedWorker a) es))) (WorkerCallSuccess (call_id (last (posted (channels (step (run (run (refCountedWorker a) es) [Release, Acquire, Call m x]) (Message (length (channels (run (refCountedWorker a) es))) (WorkerCallSuccess 1 u))) ! length (channels (run (refCountedWorker a) es)))))) v))) (calls (run (refCountedWorker a) es)) = Fulfilled v"
proof
  assume "refCount (run (refCountedWorker a) es) = 1"
  then show "getState (step (run (refCountedWorker a) es) Release) = ''disconnected'' \<and>
    (\<forall>c. current (run (refCountedWorker a) es) = Some c \<longrightarrow> c < length (channels (run (refCountedWorker a) es)) \<and>
       terminated (channels (run (run (refCountedWorker a) es) [Release, Acquire, Call m x]) ! c) \<and> \<not> listening (channels (run (run (refCountedWorker a) es) [Release, Acquire, Call m x]) ! c)) \<and>
    getState (run (run (refCountedWorker a) es) [Release, Acquire, Call m x]) = ''connecting'' \<and>
    length (channels (run (run (refCountedWorker a) es) [Release, Acquire, Call m x])) = Suc (length (channels (run (refCountedWorker a) es))) \<and>
    posted (channels (run (run (refCountedWorker a) es) [Release, Acquire, Call m x]) ! length (channels (run (refCountedWorker a) es))) = [constructorCall a] \<and>
    listening (channels (run (run (refCountedWorker a) es) [Release, Acquire, Call m x]) ! length (channels (run (refCountedWorker a) es))) \<and>
    \<not> terminated (channels (run (run (refCountedWorker a) es) [Release, Acquire, Call m x]) ! length (channels (run (refCountedWorker a) es))) \<and>
    getState (step (run (run (refCountedWorker a) es) [Release, Acquire, Call m x]) (Message (length (channels (run (refCountedWorker a) es))) (WorkerCallSuccess 1 u))) = ''connected'' \<and>
    current (step (run (run (refCountedWorker a) es) [Release, Acquire, Call m x]) (Message (length (channels (run (refCountedWorker a) es))) (WorkerCallSuccess 1 u))) = Some (length (channels (run (refCountedWorker a) es))) \<and>
    call_method (last (posted (channels (step (run (run (refCountedWorker a) es) [Release, Acquire, Call m x]) (Message (length (channels (run (refCountedWorker a) es))) (WorkerCallSuccess 1 u))) ! length (channels (run (refCountedWorker a) es))))) = m \<and>
    args (last (posted (channels (step (run (run (refCountedWorker a) es) [Release, Acquire, Call m x]) (Message (length (channels (run (refCountedWorker a) es))) (WorkerCallSuccess 1 u))) ! length (channels (run (refCountedWorker a) es))))) = x \<and>
    resultOf (step (step (run (run (refCountedWorker a) es) [Release, Acquire, Call m x]) (Message (length (channels (run (refCountedWorker a) es))) (WorkerCallSuccess 1 u))) (Message (length (channels (run (refCountedWorker a) es))) (WorkerCallSuccess (call_id (last (posted (channels (step (run (run (refCountedWorker a) es) [Release, Acquire, Call m x]) (Message (length (channels (run (refCountedWorker a) es))) (WorkerCallSuccess 1 u))) ! length (channels (run (refCountedWorker a) es)))))) v))) (calls (run (refCountedWorker a) es)) = Fulfilled v"
    by (rule reconnect_builds_new_channel [OF hinv_reach])
qed

theorem reconnect_uses_new_channel_witness:
  "refCount (run (refCountedWorker [Num 1]) [Acquire, Call ''add'' [Num 2, Num 3], Message 0 (WorkerCallSuccess 1 Undefined), Fault 0 (Str ''crash'')]) = 1 \<and>
   resultOf (run (refCountedWorker [Num 1]) [Acquire, Call ''add'' [Num 2, Num 3], Message 0 (WorkerCallSuccess 1 Undefined), Fault 0 (Str ''crash'')]) 0 = Rejected (ErrorEvent (Str ''crash'')) \<and>
   getState (run (refCountedWorker [Num 1]) [Acquire, Call ''add'' [Num 2, Num 3], Message 0 (WorkerCallSuccess 1 Undefined), Fault 0 (Str ''crash'')]) = ''connected'' \<and>
   getState (step (run (refCountedWorker [Num 1]) [Acquire, Call ''add'' [Num 2, Num 3], Message 0 (WorkerCallSuccess 1 Undefined), Fault 0 (Str ''crash'')]) Release) = ''disconnected'' \<and>
   current (run (refCountedWorker [Num 1]) [Acquire, Call ''add'' [Num 2, Num 3], Message 0 (WorkerCallSuccess 1 Undefined), Fault 0 (Str ''crash'')]) = Some 0 \<and>
   (0 < length (channels (run (refCountedWorker [Num 1]) [Acquire, Call ''add'' [Num 2, Num 3], Message 0 (WorkerCallSuccess 1 Undefined), Fault 0 (Str ''crash'')])) \<and>
    terminated (channels (run (run (refCountedWorker [Num 1]) [Acquire, Call ''add'' [Num 2, Num 3], Message 0 (WorkerCallSuccess 1 Undefined), Fault 0 (Str ''crash'')]) [Release, Acquire, Call ''add'' [Num 2, Num 3]]) ! 0) \<and>
    \<not> listening (channels (run (run (refCountedWorker [Num 1]) [Acquire, Call ''add'' [Num 2, Num 3], Message 0 (WorkerCallSuccess 1 Undefined), Fault 0 (Str ''crash'')]) [Release, Acquire, Call ''add'' [Num 2, Num 3]]) ! 0)) \<and>
   map terminated (channels (run (run (refCountedWorker [Num 1]) [Acquire, Call ''add'' [Num 2, Num 3], Message 0 (WorkerCallSuccess 1 Undefined), Fault 0 (Str ''crash'')]) [Release, Acquire, Call ''add'' [Num 2, Num 3]])) = [True, False] \<and>
   resultOf (run (run (refCountedWorker [Num 1]) [Acquire, Call ''add'' [Num 2, Num 3], Message 0 (WorkerCallSuccess 1 Undefined), Fault 0 (Str ''crash'')]) [Release, Acquire, Call ''add'' [Num 2, Num 3],
      Message 1 (WorkerCallSuccess 1 Undefined), Message 1 (WorkerCallSuccess 2 (Num 5))]) 1 = Fulfilled (Num 5)"
proof -
  have z: "refCount (run (refCountedWorker [Num 1]) [Acquire, Call ''add'' [Num 2, Num 3], Message 0 (WorkerCallSuccess 1 Undefined), Fault 0 (Str ''crash'')]) = 1"
    by (simp add: exec_defs)
  note r = reconnect_uses_new_channel
    [of "[Num 1]" "[Acquire, Call ''add'' [Num 2, Num 3], Message 0 (WorkerCallSuccess 1 Undefined), Fault 0 (Str ''crash'')]" "''add''" "[Num 2, Num 3]" Undefined "Num 5", THEN mp, OF z]
  have e: "resultOf (run (refCountedWorker [Num 1]) [Acquire, Call ''add'' [Num 2, Num 3], Message 0 (WorkerCallSuccess 1 Undefined), Fault 0 (Str ''crash'')]) 0 = Rejected (ErrorEvent (Str ''crash'')) \<and>
   getState (run (refCountedWorker [Num 1]) [Acquire, Call ''add'' [Num 2, Num 3], Message 0 (WorkerCallSuccess 1 Undefined), Fault 0 (Str ''crash'')]) = ''connected''"
    by (simp add: exec_defs)
  have g: "map terminated (channels (run (run (refCountedWorker [Num 1]) [Acquire, Call ''add'' [Num 2, Num 3], Message 0 (WorkerCallSuccess 1 Undefined), Fault 0 (Str ''crash'')]) [Release, Acquire, Call ''add'' [Num 2, Num 3]])) = [True, False] \<and>
   resultOf (run (run (refCountedWorker [Num 1]) [Acquire, Call ''add'' [Num 2, Num 3], Message 0 (WorkerCallSuccess 1 Undefined), Fault 0 (Str ''crash'')]) [Release, Acquire, Call ''add'' [Num 2, Num 3],
      Message 1 (WorkerCallSuccess 1 Undefined), Message 1 (WorkerCallSuccess 2 (Num 5))]) 1 = Fulfilled (Num 5)"
    by (simp add: exec_defs channels_def)
  have c: "current (run (refCountedWorker [Num 1]) [Acquire, Call ''add'' [Num 2, Num 3], Message 0 (WorkerCallSuccess 1 Undefined), Fault 0 (Str ''crash'')]) = Some 0"
    by (simp add: exec_defs current_def)
  note t = r [THEN conjunct2, THEN conjunct1, THEN spec, THEN mp, OF c]
  show ?thesis
    by (rule conjI [OF z conjI [OF e [THEN conjunct1] conjI [OF e [THEN conjunct2]
          conjI [OF r [THEN conjunct1] conjI [OF c conjI [OF t g]]]]]])
qed

section \<open>Following one call\<close>




















lemma entry_frame:
  "connections q = connections p \<Longrightarrow> entry n env w q = entry n env w p"
  by (simp add: entry_def)


lemma entry_settleShared: "entry n env w (settleShared r v p) = entry n env w p"
  by (rule entry_frame) (simp add: settleShared_def)




lemma connections_applyEffect:
  "connections (applyEffect c eff p) = connections p \<or>
   connections (applyEffect c eff p) = (connections p)[c := dispose (connections p ! c)]"
proof (cases eff)
  case (Warn w)
  then show ?thesis by simp
next
  case (Settle w out)
  then show ?thesis
    by (cases w; cases out) (simp_all add: settleResult_def frame_settleShared)
qed

lemma controllers_applyEffect: "controllers (applyEffect c eff p) = controllers p"
proof (cases eff)
  case (Warn w)
  then show ?thesis by simp
next
  case (Settle w out)
  then show ?thesis
    by (cases w; cases out) (simp_all add: settleResult_def frame_settleShared)
qed



lemma frame_applyEffect:
  "length (connections (applyEffect c eff p)) = length (connections p) \<and>
   (n \<noteq> c \<longrightarrow> listening (connections (applyEffect c eff p) ! n) = listening (connections p ! n))"
  using connections_applyEffect [of c eff p] by auto

lemma frame_applyEffects:
  "length (connections (foldl (\<lambda>q e. applyEffect c e q) p effs)) = length (connections p) \<and>
   (n \<noteq> c \<longrightarrow> listening (connections (foldl (\<lambda>q e. applyEffect c e q) p effs) ! n)
      = listening (connections p ! n)) \<and>
   controllers (foldl (\<lambda>q e. applyEffect c e q) p effs) = controllers p"
proof (induction effs arbitrary: p)
  case Nil
  then show ?case by simp
next
  case (Cons eff effs)
  show ?case using Cons [of "applyEffect c eff p"] frame_applyEffect [of c eff p n]
    by (simp add: controllers_applyEffect)
qed


section \<open>Worker events that do not concern the call\<close>








lemma unused_promise:
  assumes i: "proxyOk p"
  shows "filter (\<lambda>w. fst (snd w) = length (results p)) (awaiting p) = []"
    and "\<forall>t \<in> set (microtasks p). fst (fst t) \<noteq> length (results p)"
    and "\<And>c e. c < length (connections p) \<Longrightarrow> e \<in> set (requests (connections p ! c)) \<Longrightarrow>
           snd e \<noteq> MethodResult (length (results p))"
proof -
  have "fst (snd w) \<noteq> length (results p)" if "w \<in> set (awaiting p)" for w
    using inv_aw [OF i] that unfolding awOk_def by fastforce
  then show "filter (\<lambda>w. fst (snd w) = length (results p)) (awaiting p) = []"
    by (simp add: filter_empty_conv)
  show "\<forall>t \<in> set (microtasks p). fst (fst t) \<noteq> length (results p)"
  proof
    fix t assume "t \<in> set (microtasks p)"
    then have "tOk (length (connections p)) (length (results p)) t" using inv_mt [OF i] by blast
    then show "fst (fst t) \<noteq> length (results p)"
      by (cases "(length (connections p), length (results p), t)" rule: tOk.cases) auto
  qed
  fix c e assume c: "c < length (connections p)" and e: "e \<in> set (requests (connections p ! c))"
  have "wOk (connectionState p) (shared p) (controllers p) (length (connections p)) (length (results p)) c e"
    using inv_cn [OF i] c e unfolding cnOk_def by blast
  then show "snd e \<noteq> MethodResult (length (results p))"
    by (cases e; cases "snd e") auto
qed


section \<open>A call waiting in state \<open>blocked\<close>\<close>







section \<open>Lifting to the handle\<close>

lemma onHandle_onInstance:
  assumes h: "handleOk a w" and s: "onHandle S w"
    and f: "\<And>i. proxyOk i \<Longrightarrow> S i \<Longrightarrow> S (f i)"
  shows "onHandle S (onInstance f w)"
proof -
  obtain i where i: "inst w = Some i" and si: "S i" using s by (cases "inst w") (simp_all add: onHandle_def)
  show ?thesis using f [OF hinv_SomeD(2) [OF h i] si] i by (simp add: onHandle_def onInstance_def)
qed

lemma onHandle_getProxy: "onHandle S w \<Longrightarrow> onHandle S (step w GetProxy)"
  by (cases "inst w") (simp_all add: onHandle_def getProxy_def ensureInstance_def)

lemma onHandle_acquire:
  assumes h: "handleOk a w" and s: "onHandle S w"
    and f: "\<And>i. proxyOk i \<Longrightarrow> S i \<Longrightarrow> ready i = i"
  shows "onHandle S (step w Acquire)"
proof -
  obtain i where i: "inst w = Some i" and si: "S i" using s by (cases "inst w") (simp_all add: onHandle_def)
  show ?thesis using f [OF hinv_SomeD(2) [OF h i] si] i si
    by (simp add: onHandle_def acquire_def ensureInstance_def)
qed

lemma onHandle_run:
  assumes st: "\<And>w e. handleOk a w \<Longrightarrow> onHandle S w \<Longrightarrow> ok e \<Longrightarrow> onHandle S (step w e)"
  shows "handleOk a w \<Longrightarrow> onHandle S w \<Longrightarrow> list_all ok es \<Longrightarrow> onHandle S (run w es)"
proof (induction es arbitrary: w)
  case Nil
  then show ?case by (simp add: run_Nil)
next
  case (Cons e es)
  have "onHandle S (step w e)" using Cons.prems by (intro st) simp_all
  moreover have "handleOk a (step w e)" by (rule hinv_step [OF Cons.prems(1)])
  ultimately show ?case using Cons.IH Cons.prems unfolding run_Cons by simp
qed





section \<open>The call while the channel is being constructed\<close>












section \<open>The call once it is sent\<close>


lemma invoke_Connected:
  "connectionState p = Connected c k \<Longrightarrow>
   snd (invoke m a p) =
     p\<lparr>results := results p @ [Pending],
       microtasks := microtasks p @ [((length (results p), m, a), Fulfilled (c, k))]\<rparr>"
  by (simp add: invoke_def tryConnect_def)









section \<open>The answer to the constructor call sends the waiting call\<close>



section \<open>A call made before acquire, on the handle\<close>

lemma onHandleD: "onHandle S w \<Longrightarrow> \<exists>i. inst w = Some i \<and> S i"
  by (cases "inst w") (simp_all add: onHandle_def)



section \<open>Calls made before acquire\<close>




section \<open>A call that only a terminated worker could answer\<close>

lemma leadI:
  assumes "P < length (results p)"
    and "\<forall>w \<in> set (awaiting p). fst (snd w) \<noteq> P"
    and "\<forall>t \<in> set (microtasks p). fst (fst t) = P \<longrightarrow> sendsOn n (snd t)"
    and "\<And>c e. c < length (connections p) \<Longrightarrow> e \<in> set (requests (connections p ! c)) \<Longrightarrow>
           snd e = MethodResult P \<Longrightarrow> c = n"
  shows "lead n P p"
  using assms unfolding lead_def by blast

lemma leadD:
  assumes "lead n P p"
  shows "P < length (results p)"
    and "\<forall>w \<in> set (awaiting p). fst (snd w) \<noteq> P"
    and "\<forall>t \<in> set (microtasks p). fst (fst t) = P \<longrightarrow> sendsOn n (snd t)"
    and "\<And>c e. c < length (connections p) \<Longrightarrow> e \<in> set (requests (connections p ! c)) \<Longrightarrow>
           snd e = MethodResult P \<Longrightarrow> c = n"
  using assms unfolding lead_def by blast+

lemma lead_frame:
  assumes l: "lead n P p"
    and "length (results p) \<le> length (results q)" "awaiting q = awaiting p"
      "microtasks q = microtasks p" "connections q = connections p"
  shows "lead n P q"
  using assms unfolding lead_def by simp

lemma lead_replace:
  assumes l: "lead n P p"
    and w: "\<forall>e \<in> set (requests conn).
              e \<in> set (requests (connections p ! c)) \<or> snd e \<noteq> MethodResult P \<or> c = n"
  shows "lead n P (p\<lparr>connections := (connections p)[c := conn]\<rparr>)"
proof (rule leadI)
  let ?q = "p\<lparr>connections := (connections p)[c := conn]\<rparr>"
  show "P < length (results ?q)" "\<forall>w \<in> set (awaiting ?q). fst (snd w) \<noteq> P"
    "\<forall>t \<in> set (microtasks ?q). fst (fst t) = P \<longrightarrow> sendsOn n (snd t)"
    using leadD(1-3) [OF l] by simp_all
  fix c' e assume c': "c' < length (connections ?q)" and e: "e \<in> set (requests (connections ?q ! c'))"
    and s: "snd e = MethodResult P"
  show "c' = n"
  proof (cases "c' = c")
    case True
    then have "e \<in> set (requests conn)" using e c' by simp
    then have "e \<in> set (requests (connections p ! c)) \<or> c = n" using w s by blast
    moreover have "c < length (connections p)" using c' True by simp
    ultimately show ?thesis using leadD(4) [OF l _ _ s] True by blast
  next
    case False
    then have "c' < length (connections p)" "e \<in> set (requests (connections p ! c'))"
      using c' e by simp_all
    then show ?thesis by (rule leadD(4) [OF l _ _ s])
  qed
qed

lemma lead_append:
  assumes l: "lead n P p" and w: "\<forall>e \<in> set (requests conn). snd e \<noteq> MethodResult P"
  shows "lead n P (p\<lparr>connections := connections p @ [conn]\<rparr>)"
proof (rule leadI)
  let ?q = "p\<lparr>connections := connections p @ [conn]\<rparr>"
  show "P < length (results ?q)" "\<forall>w \<in> set (awaiting ?q). fst (snd w) \<noteq> P"
    "\<forall>t \<in> set (microtasks ?q). fst (fst t) = P \<longrightarrow> sendsOn n (snd t)"
    using leadD(1-3) [OF l] by simp_all
  fix c e assume c: "c < length (connections ?q)" and e: "e \<in> set (requests (connections ?q ! c))"
    and s: "snd e = MethodResult P"
  show "c = n"
  proof (cases "c < length (connections p)")
    case True
    then have "e \<in> set (requests (connections p ! c))" using e by (simp add: nth_append)
    then show ?thesis by (rule leadD(4) [OF l True _ s])
  next
    case False
    then have "c = length (connections p)" using c by simp
    then have "e \<in> set (requests conn)" using e by simp
    then show ?thesis using w s by blast
  qed
qed

lemma lead_settleResult:
  assumes l: "lead n P p" shows "lead n P (settleResult P' v p)"
  by (rule lead_frame [OF l]) (simp_all add: settleResult_def)

lemma lead_settleShared:
  assumes l: "lead n P p"
  shows "lead n P (settleShared r v p)"
proof (cases "shared p ! r = Pending")
  case False
  then show ?thesis using l by (simp add: settleShared_def)
next
  case True
  let ?q = "p\<lparr>shared := (shared p)[r := v],
             microtasks := microtasks p @ map (\<lambda>w. (snd w, v)) (filter (\<lambda>w. fst w = r) (awaiting p)),
             awaiting := filter (\<lambda>w. fst w \<noteq> r) (awaiting p)\<rparr>"
  have "lead n P ?q"
  proof (rule leadI)
    show "P < length (results ?q)" using leadD(1) [OF l] by simp
    show "\<forall>w \<in> set (awaiting ?q). fst (snd w) \<noteq> P" using leadD(2) [OF l] by simp
    show "\<forall>t \<in> set (microtasks ?q). fst (fst t) = P \<longrightarrow> sendsOn n (snd t)"
      using leadD(2,3) [OF l] by auto
    have cq: "connections ?q = connections p" by simp
    fix c e assume "c < length (connections ?q)" "e \<in> set (requests (connections ?q ! c))"
      "snd e = MethodResult P"
    then show "c = n" unfolding cq by (rule leadD(4) [OF l])
  qed
  then show ?thesis using True by (simp add: settleShared_def)
qed

lemma lead_state: "lead n P (p\<lparr>connectionState := s\<rparr>) = lead n P p"
  by (simp add: lead_def)

lemma lead_controllers: "lead n P (p\<lparr>controllers := s\<rparr>) = lead n P p"
  by (simp add: lead_def)

lemma lead_resume:
  assumes l: "lead n P p" and t: "fst (fst t) = P \<longrightarrow> sendsOn n (snd t)"
  shows "lead n P (resume t p)"
proof -
  obtain P' m a v where tt: "t = ((P', m, a), v)" by (cases t) auto
  show ?thesis
  proof (cases v)
    case Pending
    then show ?thesis using l tt by simp
  next
    case (Rejected err)
    then show ?thesis using lead_settleResult [OF l] tt by simp
  next
    case (Fulfilled ck)
    obtain c k' where ck: "ck = (c, k')" by (cases ck)
    have cn: "P' = P \<longrightarrow> c = n" using t tt Fulfilled ck by simp
    have "lead n P (p\<lparr>connections := (connections p)
            [c := call (connections p ! c) (MethodResult P') m a (Some k')]\<rparr>)"
    proof (rule lead_replace [OF l])
      show "\<forall>e\<in>set (requests (call (connections p ! c) (MethodResult P') m a (Some k'))).
              e \<in> set (requests (connections p ! c)) \<or> snd e \<noteq> MethodResult P \<or> c = n"
        using set_update_subset [of "nextCallId (connections p ! c)" "MethodResult P'" "requests (connections p ! c)"] cn
        by (auto simp: call_def)
    qed
    then show ?thesis using tt Fulfilled ck by simp
  qed
qed

lemma lead_resumes:
  "lead n P p \<Longrightarrow> \<forall>t \<in> set ts. fst (fst t) = P \<longrightarrow> sendsOn n (snd t) \<Longrightarrow>
   lead n P (foldl (\<lambda>q t. resume t q) p ts)"
proof (induction ts arbitrary: p)
  case Nil
  then show ?case by simp
next
  case (Cons t ts)
  have "lead n P (resume t p)" using Cons.prems by (intro lead_resume) simp_all
  then show ?case using Cons by simp
qed

lemma lead_runMicrotasks: assumes l: "lead n P p" shows "lead n P (runMicrotasks p)"
proof -
  have "lead n P (p\<lparr>microtasks := []\<rparr>)" using l by (simp add: lead_def)
  then show ?thesis unfolding runMicrotasks_def using leadD(3) [OF l] by (rule lead_resumes)
qed

lemma lead_applyEffect:
  assumes l: "lead n P p"
  shows "lead n P (applyEffect c eff p)"
proof (cases eff)
  case (Warn w)
  then show ?thesis using l by (simp add: lead_def)
next
  case (Settle w out)
  show ?thesis
  proof (cases w)
    case (MethodResult P')
    then show ?thesis using Settle lead_settleResult [OF l] by (cases out) simp_all
  next
    case (ConnectAttempt r k')
    show ?thesis
    proof (cases out)
      case (Reject err)
      then show ?thesis using Settle ConnectAttempt lead_settleShared [OF l] by simp
    next
      case (Resolve v)
      have d: "lead n P (p\<lparr>connections := (connections p)[c := dispose (connections p ! c)]\<rparr>)"
        by (rule lead_replace [OF l]) (simp add: dispose_def)
      have s: "lead n P (p\<lparr>connectionState := Connected c k'\<rparr>)" using l by (simp add: lead_state)
      show ?thesis
        using Settle ConnectAttempt Resolve lead_settleShared [OF d] lead_settleShared [OF s]
        by simp
    qed
  qed
qed

lemma lead_applyEffects:
  "lead n P p \<Longrightarrow> lead n P (foldl (\<lambda>q e. applyEffect c e q) p effs)"
  by (induction effs arbitrary: p) (simp_all add: lead_applyEffect)


lemma lead_enqueue:
  assumes l: "lead n P p" and ne: "P' \<noteq> P"
  shows "lead n P (p\<lparr>awaiting := awaiting p @ [(r, (P', m, a))]\<rparr>)"
    and "lead n P (p\<lparr>microtasks := microtasks p @ [((P', m, a), v)]\<rparr>)"
  using l ne unfolding lead_def by simp_all

lemma lead_connect:
  assumes l: "lead n P p" shows "lead n P (connect r k p)"
proof (cases "controllers p ! k")
  case True
  then show ?thesis using lead_settleShared [OF l] by (simp add: connect_def)
next
  case False
  have "lead n P (p\<lparr>connections := connections p @
      [call newWorkerConnection (ConnectAttempt r k) ''constructor'' (constructorArgs p) (Some k)]\<rparr>)"
    by (rule lead_append [OF l]) (simp add: new_requests)
  then show ?thesis using False by (simp add: connect_def)
qed

lemma lead_tryConnect:
  assumes l: "lead n P p" shows "lead n P (snd (tryConnect p))"
proof (cases "connectionState p")
  case Disconnected
  have "lead n P (p\<lparr>shared := shared p @ [Pending], controllers := controllers p @ [False]\<rparr>)"
    by (rule lead_frame [OF l]) simp_all
  then show ?thesis using Disconnected by (simp add: tryConnect_def makeBlockedState_def lead_state)
next
  case (Ready r k)
  then show ?thesis using lead_connect [OF l] by (simp add: tryConnect_def lead_state)
qed (use l in \<open>simp_all add: tryConnect_def\<close>)

lemma lead_invoke:
  assumes l: "lead n P p" shows "lead n P (snd (invoke m a p))"
proof -
  let ?q = "p\<lparr>results := results p @ [Pending]\<rparr>"
  have ne: "length (results p) \<noteq> P" using leadD(1) [OF l] by simp
  have "lead n P ?q" by (rule lead_frame [OF l]) simp_all
  then have l': "lead n P (snd (tryConnect ?q))" by (rule lead_tryConnect)
  obtain x p' where t: "tryConnect ?q = (x, p')" by (cases "tryConnect ?q")
  have lp: "lead n P p'" using l' t by simp
  note en = lead_enqueue [OF lp ne]
  show ?thesis
  proof (cases x)
    case (Inl r)
    then show ?thesis using t en by (cases "shared p' ! r") (simp_all add: invoke_def)
  next
    case (Inr ck)
    then show ?thesis using t en by (simp add: invoke_def)
  qed
qed

lemma lead_callMethod:
  assumes l: "lead n P p" shows "lead n P (snd (callMethod m a p))"
proof -
  obtain f q where g: "getMethod m p = (f, q)" by (cases "getMethod m p")
  have "lead n P q"
    by (rule lead_frame [OF l]) (use g in \<open>auto simp: getMethod_def split: option.splits\<close>)
  then show ?thesis using lead_invoke [of n P q] by (simp add: callMethod_def g)
qed

lemma lead_ready:
  assumes l: "lead n P p" shows "lead n P (ready p)"
proof (cases "connectionState p")
  case Disconnected
  have "lead n P (p\<lparr>shared := shared p @ [Pending], controllers := controllers p @ [False]\<rparr>)"
    by (rule lead_frame [OF l]) simp_all
  then show ?thesis using Disconnected by (simp add: ready_def makeBlockedState_def lead_state)
next
  case (Blocked r k)
  have "lead n P (p\<lparr>connectionState := Ready r k\<rparr>)" using l by (simp add: lead_state)
  then show ?thesis using Blocked lead_tryConnect by (simp add: ready_def)
qed (use l in \<open>simp_all add: ready_def\<close>)

lemma lead_disconnect:
  assumes l: "lead n P p" shows "lead n P (disconnect p)"
proof (cases "connectionState p")
  case (Connected c k)
  have "lead n P (p\<lparr>connections := (connections p)[c := dispose (connections p ! c)]\<rparr>)"
    by (rule lead_replace [OF l]) (simp add: dispose_def)
  then have "lead n P (p\<lparr>controllers := (controllers p)[k := True],
      connections := (connections p)[c := dispose (connections p ! c)], connectionState := Disconnected\<rparr>)"
    by (simp add: lead_def)
  then show ?thesis using Connected by (simp add: disconnect_def)
qed (use l in \<open>simp_all add: disconnect_def lead_def\<close>)

lemma onMessage_conn:
  "set (requests (fst (onMessage conn msg))) \<subseteq> set (requests conn) \<and>
   listening (fst (onMessage conn msg)) = listening conn"
  by (cases "map_of (requests conn) (message_id msg)") (auto simp: onMessage_def set_delete_eq)

lemma lead_workerMessage:
  assumes l: "lead n P p" shows "lead n P (workerMessage c msg p)"
proof (cases "c < length (connections p) \<and> listening (connections p ! c)")
  case False
  show ?thesis using workerMessage_skip [OF False] l by simp
next
  case True
  let ?p0 = "runMicrotasks p"
  obtain conn effs where o: "onMessage (connections ?p0 ! c) msg = (conn, effs)"
    by (cases "onMessage (connections ?p0 ! c) msg")
  have wm: "workerMessage c msg p
      = runMicrotasks (foldl (\<lambda>q e. applyEffect c e q) (?p0\<lparr>connections := (connections ?p0)[c := conn]\<rparr>) effs)"
    using True o by (simp add: workerMessage_def)
  have l0: "lead n P ?p0" by (rule lead_runMicrotasks [OF l])
  have "lead n P (?p0\<lparr>connections := (connections ?p0)[c := conn]\<rparr>)"
    by (rule lead_replace [OF l0]) (use onMessage_conn [of "connections ?p0 ! c" msg] o in auto)
  then show ?thesis unfolding wm by (intro lead_runMicrotasks lead_applyEffects)
qed

lemma lead_workerError:
  assumes l: "lead n P p" shows "lead n P (workerError c x p)"
proof (cases "c < length (connections p) \<and> listening (connections p ! c)")
  case False
  show ?thesis using workerError_skip [OF False] l by simp
next
  case True
  let ?p0 = "runMicrotasks p"
  let ?conn = "(connections ?p0 ! c)\<lparr>requests := []\<rparr>"
  let ?effs = "map (\<lambda>request. Settle request (Reject (ErrorEvent x))) (map snd (requests (connections ?p0 ! c)))"
  have we: "workerError c x p
      = runMicrotasks (foldl (\<lambda>q e. applyEffect c e q) (?p0\<lparr>connections := (connections ?p0)[c := ?conn]\<rparr>) ?effs)"
    using True by (simp add: workerError_def onError_def)
  have l0: "lead n P ?p0" by (rule lead_runMicrotasks [OF l])
  have "lead n P (?p0\<lparr>connections := (connections ?p0)[c := ?conn]\<rparr>)"
    by (rule lead_replace [OF l0]) simp
  then show ?thesis unfolding we by (intro lead_runMicrotasks lead_applyEffects)
qed


subsection \<open>A channel without listeners stays so\<close>

lemma dead_frame:
  "dead n p \<Longrightarrow> connections q = connections p \<Longrightarrow> dead n q"
  by (simp add: dead_def)

lemma dead_append: "dead n p \<Longrightarrow> dead n (p\<lparr>connections := connections p @ [conn]\<rparr>)"
  by (simp add: dead_def nth_append)

lemma dead_tryConnect:
  assumes d: "dead n p" shows "dead n (snd (tryConnect p))"
proof (cases "connectionState p")
  case Disconnected
  then show ?thesis using d by (simp add: tryConnect_def makeBlockedState_def dead_def)
next
  case (Ready r k)
  have "dead n (connect r k p)"
    using d dead_append [OF d] by (cases "controllers p ! k") (simp_all add: connect_def dead_def frame_settleShared)
  then show ?thesis using Ready by (simp add: tryConnect_def dead_def)
qed (use d in \<open>simp_all add: tryConnect_def\<close>)

lemma dead_callMethod:
  assumes d: "dead n p" shows "dead n (snd (callMethod m a p))"
proof -
  obtain f q where g: "getMethod m p = (f, q)" by (cases "getMethod m p")
  have "dead n q"
    by (rule dead_frame [OF d]) (use g in \<open>auto simp: getMethod_def split: option.splits\<close>)
  then have "dead n (q\<lparr>results := results q @ [Pending]\<rparr>)" by (simp add: dead_def)
  then have "dead n (snd (tryConnect (q\<lparr>results := results q @ [Pending]\<rparr>)))" by (rule dead_tryConnect)
  then show ?thesis by (simp add: callMethod_def g dead_def connections_invoke)
qed

lemma dead_ready:
  assumes d: "dead n p" shows "dead n (ready p)"
proof (cases "connectionState p")
  case Disconnected
  then show ?thesis using d by (simp add: ready_def makeBlockedState_def dead_def)
next
  case (Blocked r k)
  have "dead n (p\<lparr>connectionState := Ready r k\<rparr>)" using d by (simp add: dead_def)
  then show ?thesis using Blocked dead_tryConnect by (simp add: ready_def)
qed (use d in \<open>simp_all add: ready_def\<close>)

lemma dead_disconnect:
  assumes d: "dead n p" shows "dead n (disconnect p)"
proof (cases "connectionState p")
  case (Connected c k)
  then show ?thesis using d
    by (cases "c = n") (simp_all add: disconnect_def dead_def dispose_def)
qed (use d in \<open>simp_all add: disconnect_def dead_def\<close>)

lemma dead_runMicrotasks: "dead n p \<Longrightarrow> dead n (runMicrotasks p)"
  by (simp add: dead_def frame_runMicrotasks)

lemma frame_workerMessage:
  "length (connections (workerMessage c msg p)) = length (connections p) \<and>
   (n \<noteq> c \<longrightarrow> listening (connections (workerMessage c msg p) ! n) = listening (connections p ! n))"
proof (cases "c < length (connections p) \<and> listening (connections p ! c)")
  case False
  show ?thesis using workerMessage_skip [OF False] by simp
next
  case True
  let ?p0 = "runMicrotasks p"
  obtain conn effs where o: "onMessage (connections ?p0 ! c) msg = (conn, effs)"
    by (cases "onMessage (connections ?p0 ! c) msg")
  let ?p1 = "?p0\<lparr>connections := (connections ?p0)[c := conn]\<rparr>"
  have wm: "workerMessage c msg p = runMicrotasks (foldl (\<lambda>q e. applyEffect c e q) ?p1 effs)"
    using True o by (simp add: workerMessage_def)
  show ?thesis unfolding wm using frame_applyEffects [of c ?p1 effs n]
    by (simp add: frame_runMicrotasks)
qed

lemma frame_workerError:
  "length (connections (workerError c x p)) = length (connections p) \<and>
   (n \<noteq> c \<longrightarrow> listening (connections (workerError c x p) ! n) = listening (connections p ! n))"
proof (cases "c < length (connections p) \<and> listening (connections p ! c)")
  case False
  show ?thesis using workerError_skip [OF False] by simp
next
  case True
  let ?p0 = "runMicrotasks p"
  let ?p1 = "?p0\<lparr>connections := (connections ?p0)[c := (connections ?p0 ! c)\<lparr>requests := []\<rparr>]\<rparr>"
  let ?effs = "map (\<lambda>request. Settle request (Reject (ErrorEvent x))) (map snd (requests (connections ?p0 ! c)))"
  have we: "workerError c x p = runMicrotasks (foldl (\<lambda>q e. applyEffect c e q) ?p1 ?effs)"
    using True by (simp add: workerError_def onError_def)
  show ?thesis unfolding we using frame_applyEffects [of c ?p1 ?effs n]
    by (simp add: frame_runMicrotasks)
qed

lemma dead_workerMessage:
  assumes d: "dead n p" shows "dead n (workerMessage c msg p)"
proof (cases "c = n")
  case True
  then have "\<not> (c < length (connections p) \<and> listening (connections p ! c))" using d by (simp add: dead_def)
  from workerMessage_skip [OF this] show ?thesis using d by simp
next
  case False
  then show ?thesis using d frame_workerMessage [of c msg p n] by (simp add: dead_def)
qed

lemma dead_workerError:
  assumes d: "dead n p" shows "dead n (workerError c x p)"
proof (cases "c = n")
  case True
  then have "\<not> (c < length (connections p) \<and> listening (connections p ! c))" using d by (simp add: dead_def)
  from workerError_skip [OF this] show ?thesis using d by simp
next
  case False
  then show ?thesis using d frame_workerError [of c x p n] by (simp add: dead_def)
qed

subsection \<open>Its promise stays pending\<close>

lemma pend_resume:
  "fst (fst t) = P \<longrightarrow> sendsOn n (snd t) \<Longrightarrow> results (resume t p) ! P = results p ! P"
  by (cases "(t, p)" rule: resume.cases) (auto simp: settleResult_def)

lemma pend_resumes:
  "\<forall>t \<in> set ts. fst (fst t) = P \<longrightarrow> sendsOn n (snd t) \<Longrightarrow>
   results (foldl (\<lambda>q t. resume t q) p ts) ! P = results p ! P"
proof (induction ts arbitrary: p)
  case Nil
  then show ?case by simp
next
  case (Cons t ts)
  have "results (resume t p) ! P = results p ! P" using Cons.prems by (intro pend_resume [of t P n]) simp
  then show ?case using Cons by simp
qed

lemma pend_runMicrotasks:
  assumes l: "lead n P p" shows "results (runMicrotasks p) ! P = results p ! P"
  using pend_resumes [OF leadD(3) [OF l], of "p\<lparr>microtasks := []\<rparr>"] by (simp add: runMicrotasks_def)

lemma pend_applyEffect:
  assumes n: "\<forall>out. eff \<noteq> Settle (MethodResult P) out"
  shows "results (applyEffect c eff p) ! P = results p ! P"
proof (cases eff)
  case (Warn w)
  then show ?thesis by simp
next
  case (Settle w out)
  show ?thesis
  proof (cases w)
    case (MethodResult P')
    then have "P' \<noteq> P" using n Settle by auto
    then show ?thesis using Settle MethodResult by (cases out) (simp_all add: settleResult_def)
  next
    case (ConnectAttempt r k)
    then show ?thesis using Settle by (cases out) (simp_all add: frame_settleShared)
  qed
qed

lemma pend_applyEffects:
  "\<forall>eff \<in> set effs. \<forall>out. eff \<noteq> Settle (MethodResult P) out \<Longrightarrow>
   results (foldl (\<lambda>q e. applyEffect c e q) p effs) ! P = results p ! P"
proof (induction effs arbitrary: p)
  case Nil
  then show ?case by simp
next
  case (Cons eff effs)
  have "results (applyEffect c eff p) ! P = results p ! P" using Cons.prems by (intro pend_applyEffect) simp
  then show ?case using Cons by simp
qed

lemma results_invoke: "results (snd (invoke m a p)) = results p @ [Pending]"
  using results_tryConnect [of "p\<lparr>results := results p @ [Pending]\<rparr>"]
  by (auto simp: invoke_def split: prod.splits sum.splits promise.splits)

lemma results_callMethod: "results (snd (callMethod m a p)) = results p @ [Pending]"
proof -
  obtain f q where g: "getMethod m p = (f, q)" by (cases "getMethod m p")
  have "results q = results p" using g by (auto simp: getMethod_def split: option.splits)
  then show ?thesis by (simp add: callMethod_def g results_invoke)
qed

lemma results_ready: "results (ready p) = results p"
  using results_tryConnect [of "p\<lparr>connectionState := Ready r k\<rparr>" for r k]
  by (cases "connectionState p") (simp_all add: ready_def makeBlockedState_def)

lemma pend_workerMessage:
  assumes s: "stuck n P p"
  shows "results (workerMessage c msg p) ! P = Pending"
proof (cases "c < length (connections p) \<and> listening (connections p ! c)")
  case False
  show ?thesis using workerMessage_skip [OF False] s by (simp add: stuck_def)
next
  case True
  have l: "lead n P p" and pe: "results p ! P = Pending" using s by (simp_all add: stuck_def)
  have cn: "c \<noteq> n" using True s by (auto simp: stuck_def)
  let ?p0 = "runMicrotasks p"
  have l0: "lead n P ?p0" by (rule lead_runMicrotasks [OF l])
  have c0: "c < length (connections ?p0)" using True by (simp add: frame_runMicrotasks)
  obtain conn effs where o: "onMessage (connections ?p0 ! c) msg = (conn, effs)"
    by (cases "onMessage (connections ?p0 ! c) msg")
  let ?p1 = "?p0\<lparr>connections := (connections ?p0)[c := conn]\<rparr>"
  let ?p2 = "foldl (\<lambda>q e. applyEffect c e q) ?p1 effs"
  have wm: "workerMessage c msg p = runMicrotasks ?p2"
    using True o by (simp add: workerMessage_def)
  have l1: "lead n P ?p1"
    by (rule lead_replace [OF l0]) (use onMessage_conn [of "connections ?p0 ! c" msg] o in auto)
  have l2: "lead n P ?p2" by (rule lead_applyEffects [OF l1])
  have ne: "\<forall>eff \<in> set effs. \<forall>out. eff \<noteq> Settle (MethodResult P) out"
  proof (cases "map_of (requests (connections ?p0 ! c)) (message_id msg)")
    case None
    then show ?thesis using o by (simp add: onMessage_def)
  next
    case (Some w)
    have "(message_id msg, w) \<in> set (requests (connections ?p0 ! c))" using Some by (rule map_of_SomeD)
    then have "w \<noteq> MethodResult P" using leadD(4) [OF l0 c0] cn by auto
    moreover have "effs = [respond w msg]" using o Some by (simp add: onMessage_def)
    ultimately show ?thesis by (cases msg) simp_all
  qed
  have "results (runMicrotasks ?p2) ! P = results ?p2 ! P" by (rule pend_runMicrotasks [OF l2])
  also have "\<dots> = results ?p1 ! P" by (rule pend_applyEffects [OF ne])
  also have "\<dots> = results p ! P" using pend_runMicrotasks [OF l] by simp
  finally show ?thesis unfolding wm using pe by simp
qed

lemma pend_workerError:
  assumes s: "stuck n P p"
  shows "results (workerError c x p) ! P = Pending"
proof (cases "c < length (connections p) \<and> listening (connections p ! c)")
  case False
  show ?thesis using workerError_skip [OF False] s by (simp add: stuck_def)
next
  case True
  have l: "lead n P p" and pe: "results p ! P = Pending" using s by (simp_all add: stuck_def)
  have cn: "c \<noteq> n" using True s by (auto simp: stuck_def)
  let ?p0 = "runMicrotasks p"
  have l0: "lead n P ?p0" by (rule lead_runMicrotasks [OF l])
  have c0: "c < length (connections ?p0)" using True by (simp add: frame_runMicrotasks)
  let ?p1 = "?p0\<lparr>connections := (connections ?p0)[c := (connections ?p0 ! c)\<lparr>requests := []\<rparr>]\<rparr>"
  let ?effs = "map (\<lambda>request. Settle request (Reject (ErrorEvent x))) (map snd (requests (connections ?p0 ! c)))"
  let ?p2 = "foldl (\<lambda>q e. applyEffect c e q) ?p1 ?effs"
  have we: "workerError c x p = runMicrotasks ?p2"
    using True by (simp add: workerError_def onError_def)
  have l1: "lead n P ?p1" by (rule lead_replace [OF l0]) simp
  have l2: "lead n P ?p2" by (rule lead_applyEffects [OF l1])
  have ne: "\<forall>eff \<in> set ?effs. \<forall>out. eff \<noteq> Settle (MethodResult P) out"
    using leadD(4) [OF l0 c0] cn by auto
  have "results (runMicrotasks ?p2) ! P = results ?p2 ! P" by (rule pend_runMicrotasks [OF l2])
  also have "\<dots> = results ?p1 ! P" by (rule pend_applyEffects [OF ne])
  also have "\<dots> = results p ! P" using pend_runMicrotasks [OF l] by simp
  finally show ?thesis unfolding we using pe by simp
qed

subsection \<open>The states after the release\<close>

lemma stuckI: "lead n P p \<Longrightarrow> dead n p \<Longrightarrow> results p ! P = Pending \<Longrightarrow> stuck n P p"
  by (simp add: stuck_def dead_def)

lemma stuckD:
  assumes "stuck n P p"
  shows "lead n P p" "dead n p" "results p ! P = Pending" "P < length (results p)"
  using assms leadD(1) [of n P p] by (simp_all add: stuck_def dead_def)

lemma stuck_callMethod:
  assumes s: "stuck n P p" shows "stuck n P (snd (callMethod m a p))"
  using lead_callMethod [OF stuckD(1) [OF s]] dead_callMethod [OF stuckD(2) [OF s]] stuckD(3,4) [OF s]
  by (intro stuckI) (simp_all add: results_callMethod nth_append)

lemma stuck_runMicrotasks:
  assumes s: "stuck n P p" shows "stuck n P (runMicrotasks p)"
  using lead_runMicrotasks [OF stuckD(1) [OF s]] dead_runMicrotasks [OF stuckD(2) [OF s]]
    pend_runMicrotasks [OF stuckD(1) [OF s]] stuckD(3) [OF s]
  by (intro stuckI) simp_all

lemma stuck_workerMessage:
  assumes s: "stuck n P p" shows "stuck n P (workerMessage c msg p)"
  using lead_workerMessage [OF stuckD(1) [OF s]] dead_workerMessage [OF stuckD(2) [OF s]]
    pend_workerMessage [OF s]
  by (intro stuckI)

lemma stuck_workerError:
  assumes s: "stuck n P p" shows "stuck n P (workerError c x p)"
  using lead_workerError [OF stuckD(1) [OF s]] dead_workerError [OF stuckD(2) [OF s]]
    pend_workerError [OF s]
  by (intro stuckI)

lemma stuck_ready:
  assumes s: "stuck n P p" shows "stuck n P (ready p)"
  using lead_ready [OF stuckD(1) [OF s]] dead_ready [OF stuckD(2) [OF s]] stuckD(3) [OF s]
  by (intro stuckI) (simp_all add: results_ready)

lemma stuck_disconnect:
  assumes s: "stuck n P p" shows "stuck n P (disconnect p)"
  using lead_disconnect [OF stuckD(1) [OF s]] dead_disconnect [OF stuckD(2) [OF s]] stuckD(3) [OF s]
    frame_disconnect [of p]
  by (intro stuckI) simp_all


subsection \<open>The states before the release\<close>

lemma connected_callMethod:
  assumes st: "connectionState p = Connected n k"
  shows "connectionState (snd (callMethod m a p)) = Connected n k"
proof -
  obtain f q where g: "getMethod m p = (f, q)" by (cases "getMethod m p")
  have q: "connectionState q = Connected n k"
    using g st by (auto simp: getMethod_def split: option.splits)
  show ?thesis using q by (simp add: callMethod_def g state_invoke tryConnect_def)
qed

lemma sending_callMethod:
  "sending n k P p \<Longrightarrow> sending n k P (snd (callMethod m a p))"
  by (simp add: sending_def lead_callMethod connected_callMethod)

lemma sending_runMicrotasks: "sending n k P p \<Longrightarrow> sending n k P (runMicrotasks p)"
  by (simp add: sending_def lead_runMicrotasks frame_runMicrotasks)

lemma sending_workerMessage:
  assumes i: "proxyOk p" and s: "sending n k P p"
  shows "sending n k P (workerMessage c msg p)"
  using state_workerMessage [OF i, of c msg] s by (auto simp: sending_def lead_workerMessage)

lemma sending_workerError: "sending n k P p \<Longrightarrow> sending n k P (workerError c x p)"
  by (simp add: sending_def lead_workerError state_workerError)

lemma sending_disconnect:
  assumes i: "proxyOk p" and s: "sending n k P p" and pe: "results p ! P = Pending"
  shows "stuck n P (disconnect p)"
proof (rule stuckI)
  have st: "connectionState p = Connected n k" and l: "lead n P p" using s by (simp_all add: sending_def)
  show "lead n P (disconnect p)" by (rule lead_disconnect [OF l])
  have "n < length (connections p)" using inv_st [OF i] st by simp
  then show "dead n (disconnect p)" using st by (simp add: disconnect_def dead_def dispose_def)
  show "results (disconnect p) ! P = Pending" using pe frame_disconnect [of p] by simp
qed

subsection \<open>On the handle\<close>

lemma onHandle_acquire_any:
  assumes s: "onHandle S w" and f: "\<And>i. S i \<Longrightarrow> S (ready i)"
  shows "onHandle S (step w Acquire)"
proof -
  obtain i where i: "inst w = Some i" and si: "S i" using onHandleD [OF s] by blast
  show ?thesis using f [OF si] i si by (simp add: onHandle_def acquire_def ensureInstance_def)
qed

lemma onHandle_release_any:
  assumes s: "onHandle S w" and f: "\<And>i. S i \<Longrightarrow> S (disconnect i)"
  shows "onHandle S (step w Release)"
proof -
  obtain i where i: "inst w = Some i" and si: "S i" using onHandleD [OF s] by blast
  show ?thesis using f [OF si] i si by (simp add: onHandle_def release_def)
qed

lemma sending_step:
  assumes h: "handleOk a w" and s: "onHandle (sending n k P) w" and e: "e \<noteq> Release"
  shows "onHandle (sending n k P) (step w e)"
proof (cases e)
  case GetProxy
  then show ?thesis using onHandle_getProxy [OF s] by simp
next
  case Acquire
  have "onHandle (sending n k P) (step w Acquire)"
    by (rule onHandle_acquire [OF h s]) (simp add: sending_def ready_def)
  then show ?thesis using Acquire by simp
next
  case (Call m' x')
  have "onHandle (sending n k P) (onInstance (\<lambda>i. snd (callMethod m' x' i)) w)"
    by (rule onHandle_onInstance [OF h s]) (rule sending_callMethod)
  then show ?thesis using Call by simp
next
  case Tick
  have "onHandle (sending n k P) (onInstance runMicrotasks w)"
    by (rule onHandle_onInstance [OF h s]) (rule sending_runMicrotasks)
  then show ?thesis using Tick by simp
next
  case (Message c msg)
  have "onHandle (sending n k P) (onInstance (workerMessage c msg) w)"
    by (rule onHandle_onInstance [OF h s]) (rule sending_workerMessage)
  then show ?thesis using Message by simp
next
  case (Fault c y)
  have "onHandle (sending n k P) (onInstance (workerError c y) w)"
    by (rule onHandle_onInstance [OF h s]) (rule sending_workerError)
  then show ?thesis using Fault by simp
qed (use e in simp)

lemma stuck_step:
  assumes h: "handleOk a w" and s: "onHandle (stuck n P) w"
  shows "onHandle (stuck n P) (step w e)"
proof (cases e)
  case GetProxy
  then show ?thesis using onHandle_getProxy [OF s] by simp
next
  case Acquire
  have "onHandle (stuck n P) (step w Acquire)"
    by (rule onHandle_acquire_any [OF s]) (rule stuck_ready)
  then show ?thesis using Acquire by simp
next
  case Release
  have "onHandle (stuck n P) (step w Release)"
    by (rule onHandle_release_any [OF s]) (rule stuck_disconnect)
  then show ?thesis using Release by simp
next
  case (Call m' x')
  have "onHandle (stuck n P) (onInstance (\<lambda>i. snd (callMethod m' x' i)) w)"
    by (rule onHandle_onInstance [OF h s]) (rule stuck_callMethod)
  then show ?thesis using Call by simp
next
  case Tick
  have "onHandle (stuck n P) (onInstance runMicrotasks w)"
    by (rule onHandle_onInstance [OF h s]) (rule stuck_runMicrotasks)
  then show ?thesis using Tick by simp
next
  case (Message c msg)
  have "onHandle (stuck n P) (onInstance (workerMessage c msg) w)"
    by (rule onHandle_onInstance [OF h s]) (rule stuck_workerMessage)
  then show ?thesis using Message by simp
next
  case (Fault c y)
  have "onHandle (stuck n P) (onInstance (workerError c y) w)"
    by (rule onHandle_onInstance [OF h s]) (rule stuck_workerError)
  then show ?thesis using Fault by simp
qed

lemma release_strands:
  assumes h: "handleOk a w" and s: "inst w = Some i" and st: "connectionState i = Connected n k"
    and e1: "Release \<notin> set es1"
    and rc: "refCount (run w (Call m x # es1)) = 1"
    and pe: "resultOf (run w (Call m x # es1)) (calls w) = Pending"
  shows "getState (run w (Call m x # es1 @ [Release])) = ''disconnected'' \<and>
     refCount (run w (Call m x # es1 @ [Release])) = 0 \<and>
     resultOf (run w (Call m x # es1 @ Release # es2)) (calls w) = Pending"
proof -
  note d = hinv_SomeD [OF h s]
  let ?P = "length (results i)"
  have P: "calls w = ?P" using s by (simp add: calls_def)
  let ?i1 = "snd (callMethod m x i)"
  let ?q = "i\<lparr>closures := closures i @ [m]\<rparr>"
  have cm: "callMethod m x i = invoke m x ?q" by (rule callMethod_eq [OF inv_me [OF d(2)]])
  have sq: "connectionState ?q = Connected n k" using st by simp
  have c: "?i1 = i\<lparr>closures := closures i @ [m], results := results i @ [Pending],
      microtasks := microtasks i @ [((?P, m, x), Fulfilled (n, k))]\<rparr>"
    unfolding cm by (subst invoke_Connected [OF sq]) simp
  note u = unused_promise [OF d(2)]
  have l1: "lead n ?P ?i1"
  proof (rule leadI)
    show "?P < length (results ?i1)" by (simp add: c)
    show "\<forall>w \<in> set (awaiting ?i1). fst (snd w) \<noteq> ?P"
      using u(1) by (simp add: c filter_empty_conv)
    show "\<forall>t \<in> set (microtasks ?i1). fst (fst t) = ?P \<longrightarrow> sendsOn n (snd t)"
      using u(2) by (simp add: c)
    fix c' e assume "c' < length (connections ?i1)" "e \<in> set (requests (connections ?i1 ! c'))"
      "snd e = MethodResult ?P"
    then show "c' = n" using u(3) [of c' e] by (simp add: c)
  qed
  have s1: "sending n k ?P ?i1" using l1 st by (simp add: sending_def c)
  let ?w1 = "step w (Call m x)"
  have o1: "onHandle (sending n k ?P) ?w1"
    unfolding step_Call [OF s] using s1 by (simp add: onHandle_def)
  have h1: "handleOk a ?w1" by (rule hinv_step [OF h])
  let ?v = "run ?w1 es1"
  have r1: "run w (Call m x # es1) = ?v" by (simp add: run_def)
  have l1': "list_all (\<lambda>e. e \<noteq> Release) es1" using e1 by (auto simp: list_all_iff)
  have ov: "onHandle (sending n k ?P) ?v"
    by (rule onHandle_run [OF _ h1 o1 l1']) (rule sending_step)
  have hv: "handleOk a ?v" by (rule hinv_run [OF h1])
  obtain iv where sv: "inst ?v = Some iv" and gv: "sending n k ?P iv"
    using onHandleD [OF ov] by blast
  note dv = hinv_SomeD [OF hv sv]
  have pv: "results iv ! ?P = Pending" using pe sv unfolding r1 P by (simp add: resultOf_def)
  have rv: "refCount ?v = 1" using rc unfolding r1 .
  let ?w2 = "step ?v Release"
  have w2: "?w2 = ?v\<lparr>refCount := refCount ?v - 1, inst := Some (disconnect iv)\<rparr>"
    by (rule step_Release [OF sv]) (use rv in simp)
  have k2: "stuck n ?P (disconnect iv)" by (rule sending_disconnect [OF dv(2) gv pv])
  have o2: "onHandle (stuck n ?P) ?w2" unfolding w2 using k2 by (simp add: onHandle_def)
  have h2: "handleOk a ?w2" by (rule hinv_step [OF hv])
  have la: "list_all (\<lambda>e. True) es2" by (simp add: list_all_iff)
  have o3: "onHandle (stuck n ?P) (run ?w2 es2)"
    by (rule onHandle_run [OF _ h2 o2 la]) (rule stuck_step)
  obtain i3 where s3: "inst (run ?w2 es2) = Some i3" and k3: "stuck n ?P i3"
    using onHandleD [OF o3] by blast
  have r2: "run w (Call m x # es1 @ [Release]) = ?w2" by (simp add: run_def)
  have r3: "run w (Call m x # es1 @ Release # es2) = run ?w2 es2" by (simp add: run_def)
  have a1: "getState ?w2 = ''disconnected''"
    unfolding w2 by (simp add: getState_def state_disconnect)
  have a2: "refCount ?w2 = 0" unfolding w2 using rv by simp
  have a3: "resultOf (run ?w2 es2) ?P = Pending"
    using s3 stuckD(3) [OF k3] by (simp add: resultOf_def)
  show ?thesis unfolding r2 r3 P using a1 a2 a3 by blast
qed

section \<open>Release while a call is in flight\<close>

text \<open>
  C1 does not hold of the code once the connection is established.
  \<open>WorkerConnection.call\<close> never reads \<open>options.signal\<close>, so aborting the controller
  rejects nothing, and \<open>dispose()\<close> removes the listeners, so no event of the worker
  settles the pending entry afterwards. In every reachable state with state
  \<open>'connected'\<close>, take a method call made there, and anything after it (\<open>es1\<close>) except
  \<open>release()\<close>. If its promise is still pending when \<open>release()\<close> brings the count from
  one to zero, then the state becomes \<open>'disconnected'\<close> and the promise is pending after
  every further sequence of events (\<open>es2\<close>): it is never rejected and never fulfilled.
\<close>

theorem release_when_connected_strands_call:
  "getState (run (refCountedWorker a) es) = ''connected'' \<and> Release \<notin> set es1 \<and>
   refCount (run (run (refCountedWorker a) es) (Call m x # es1)) = 1 \<and>
   resultOf (run (run (refCountedWorker a) es) (Call m x # es1)) (calls (run (refCountedWorker a) es)) = Pending \<longrightarrow>
     getState (run (run (refCountedWorker a) es) (Call m x # es1 @ [Release])) = ''disconnected'' \<and>
     refCount (run (run (refCountedWorker a) es) (Call m x # es1 @ [Release])) = 0 \<and>
     resultOf (run (run (refCountedWorker a) es) (Call m x # es1 @ Release # es2)) (calls (run (refCountedWorker a) es)) = Pending"
proof
  let ?W = "run (refCountedWorker a) es"
  assume a: "getState (run (refCountedWorker a) es) = ''connected'' \<and> Release \<notin> set es1 \<and>
   refCount (run (run (refCountedWorker a) es) (Call m x # es1)) = 1 \<and>
   resultOf (run (run (refCountedWorker a) es) (Call m x # es1)) (calls (run (refCountedWorker a) es)) = Pending"
  have "stateType (case inst ?W of Some i \<Rightarrow> connectionState i | None \<Rightarrow> Disconnected) = ''connected''"
    using a by (cases "inst ?W") (simp_all add: getState_def)
  then obtain i n k where s: "inst ?W = Some i" and st: "connectionState i = Connected n k"
    unfolding stateType_connected by (cases "inst ?W") auto
  show "getState (run (run (refCountedWorker a) es) (Call m x # es1 @ [Release])) = ''disconnected'' \<and>
     refCount (run (run (refCountedWorker a) es) (Call m x # es1 @ [Release])) = 0 \<and>
     resultOf (run (run (refCountedWorker a) es) (Call m x # es1 @ Release # es2)) (calls (run (refCountedWorker a) es)) = Pending"
    by (rule release_strands [OF hinv_reach s st]) (use a in simp_all)
qed

theorem release_when_connected_strands_call_witness:
  "(getState (run (refCountedWorker [Num 1])
      [Acquire, Call ''add'' [Num 1, Num 2], Message 0 (WorkerCallSuccess 1 Undefined),
       Message 0 (WorkerCallSuccess 2 (Num 3))]) = ''connected'' \<and> Release \<notin> set [Tick] \<and>
   refCount (run (run (refCountedWorker [Num 1])
      [Acquire, Call ''add'' [Num 1, Num 2], Message 0 (WorkerCallSuccess 1 Undefined),
       Message 0 (WorkerCallSuccess 2 (Num 3))]) (Call ''add'' [Num 3, Num 4] # [Tick])) = 1 \<and>
   resultOf (run (run (refCountedWorker [Num 1])
      [Acquire, Call ''add'' [Num 1, Num 2], Message 0 (WorkerCallSuccess 1 Undefined),
       Message 0 (WorkerCallSuccess 2 (Num 3))]) (Call ''add'' [Num 3, Num 4] # [Tick])) (calls (run (refCountedWorker [Num 1])
      [Acquire, Call ''add'' [Num 1, Num 2], Message 0 (WorkerCallSuccess 1 Undefined),
       Message 0 (WorkerCallSuccess 2 (Num 3))])) = Pending) \<and>
   (getState (run (run (refCountedWorker [Num 1])
      [Acquire, Call ''add'' [Num 1, Num 2], Message 0 (WorkerCallSuccess 1 Undefined),
       Message 0 (WorkerCallSuccess 2 (Num 3))]) (Call ''add'' [Num 3, Num 4] # [Tick] @ [Release])) = ''disconnected'' \<and>
     refCount (run (run (refCountedWorker [Num 1])
      [Acquire, Call ''add'' [Num 1, Num 2], Message 0 (WorkerCallSuccess 1 Undefined),
       Message 0 (WorkerCallSuccess 2 (Num 3))]) (Call ''add'' [Num 3, Num 4] # [Tick] @ [Release])) = 0 \<and>
     resultOf (run (run (refCountedWorker [Num 1])
      [Acquire, Call ''add'' [Num 1, Num 2], Message 0 (WorkerCallSuccess 1 Undefined),
       Message 0 (WorkerCallSuccess 2 (Num 3))]) (Call ''add'' [Num 3, Num 4] # [Tick] @ Release # [Tick, Message 0 (WorkerCallSuccess 3 (Num 7)), Fault 0 (Str ''crash''), Acquire, Tick])) (calls (run (refCountedWorker [Num 1])
      [Acquire, Call ''add'' [Num 1, Num 2], Message 0 (WorkerCallSuccess 1 Undefined),
       Message 0 (WorkerCallSuccess 2 (Num 3))])) = Pending) \<and>
   resultOf (run (refCountedWorker [Num 1])
      [Acquire, Call ''add'' [Num 1, Num 2], Message 0 (WorkerCallSuccess 1 Undefined),
       Message 0 (WorkerCallSuccess 2 (Num 3))]) 0 = Fulfilled (Num 3) \<and>
   calls (run (refCountedWorker [Num 1])
      [Acquire, Call ''add'' [Num 1, Num 2], Message 0 (WorkerCallSuccess 1 Undefined),
       Message 0 (WorkerCallSuccess 2 (Num 3))]) = 1 \<and>
   map call_id (posted (channels (run (run (refCountedWorker [Num 1])
      [Acquire, Call ''add'' [Num 1, Num 2], Message 0 (WorkerCallSuccess 1 Undefined),
       Message 0 (WorkerCallSuccess 2 (Num 3))]) [Call ''add'' [Num 3, Num 4], Tick]) ! 0)) = [1, 2, 3] \<and>
   resultOf (run (refCountedWorker [Num 1])
      [Acquire, Call ''add'' [Num 1, Num 2], Release, Message 0 (WorkerCallSuccess 1 Undefined)]) 0
     = Rejected AbortError"
proof -
  have a: "getState (run (refCountedWorker [Num 1])
      [Acquire, Call ''add'' [Num 1, Num 2], Message 0 (WorkerCallSuccess 1 Undefined),
       Message 0 (WorkerCallSuccess 2 (Num 3))]) = ''connected'' \<and> Release \<notin> set [Tick] \<and>
   refCount (run (run (refCountedWorker [Num 1])
      [Acquire, Call ''add'' [Num 1, Num 2], Message 0 (WorkerCallSuccess 1 Undefined),
       Message 0 (WorkerCallSuccess 2 (Num 3))]) (Call ''add'' [Num 3, Num 4] # [Tick])) = 1 \<and>
   resultOf (run (run (refCountedWorker [Num 1])
      [Acquire, Call ''add'' [Num 1, Num 2], Message 0 (WorkerCallSuccess 1 Undefined),
       Message 0 (WorkerCallSuccess 2 (Num 3))]) (Call ''add'' [Num 3, Num 4] # [Tick])) (calls (run (refCountedWorker [Num 1])
      [Acquire, Call ''add'' [Num 1, Num 2], Message 0 (WorkerCallSuccess 1 Undefined),
       Message 0 (WorkerCallSuccess 2 (Num 3))])) = Pending"
    by (simp add: exec_defs calls_def)
  note r = release_when_connected_strands_call
    [of "[Num 1]" "[Acquire, Call ''add'' [Num 1, Num 2], Message 0 (WorkerCallSuccess 1 Undefined),
       Message 0 (WorkerCallSuccess 2 (Num 3))]" "[Tick]" "''add''" "[Num 3, Num 4]" "[Tick, Message 0 (WorkerCallSuccess 3 (Num 7)), Fault 0 (Str ''crash''), Acquire, Tick]",
     THEN mp, OF a]
  have e: "resultOf (run (refCountedWorker [Num 1])
      [Acquire, Call ''add'' [Num 1, Num 2], Message 0 (WorkerCallSuccess 1 Undefined),
       Message 0 (WorkerCallSuccess 2 (Num 3))]) 0 = Fulfilled (Num 3) \<and>
   calls (run (refCountedWorker [Num 1])
      [Acquire, Call ''add'' [Num 1, Num 2], Message 0 (WorkerCallSuccess 1 Undefined),
       Message 0 (WorkerCallSuccess 2 (Num 3))]) = 1 \<and>
   map call_id (posted (channels (run (run (refCountedWorker [Num 1])
      [Acquire, Call ''add'' [Num 1, Num 2], Message 0 (WorkerCallSuccess 1 Undefined),
       Message 0 (WorkerCallSuccess 2 (Num 3))]) [Call ''add'' [Num 3, Num 4], Tick]) ! 0)) = [1, 2, 3] \<and>
   resultOf (run (refCountedWorker [Num 1])
      [Acquire, Call ''add'' [Num 1, Num 2], Release, Message 0 (WorkerCallSuccess 1 Undefined)]) 0
     = Rejected AbortError"
    by (simp add: exec_defs calls_def channels_def)
  show ?thesis by (rule conjI [OF a conjI [OF r e]])
qed

end
